theory Spec2Isabelle
  imports Main "HOL-Library.Monad_Syntax"
begin

section \<open>Python strings\<close>

text \<open>
  A Python \<^verbatim>\<open>str\<close> is a sequence of Unicode code points. The release script strips
  whitespace, splits lines and matches \<^verbatim>\<open>\d\<close>, all of which are defined on code points
  beyond ASCII, and its section header contains U+2014; so a string is modelled as a list
  of code points (natural numbers), and an ASCII literal is written \<open>lit ''...''\<close>.
\<close>

type_synonym codepoint = nat
type_synonym str = "codepoint list"

definition lit :: "string \<Rightarrow> str" where
  "lit s = map of_char s"

text \<open>\<^verbatim>\<open>str.isspace\<close> on one character: the code points that \<^verbatim>\<open>str.strip()\<close> removes.\<close>

definition isspace :: "codepoint \<Rightarrow> bool" where
  "isspace c \<longleftrightarrow>
     (9 \<le> c \<and> c \<le> 13) \<or> (28 \<le> c \<and> c \<le> 32) \<or> c = 133 \<or> c = 160 \<or> c = 5760 \<or>
     (8192 \<le> c \<and> c \<le> 8202) \<or> c = 8232 \<or> c = 8233 \<or> c = 8239 \<or> c = 8287 \<or> c = 12288"

text \<open>\<^verbatim>\<open>s.strip()\<close>: leading and trailing whitespace removed.\<close>

definition strip :: "str \<Rightarrow> str" where
  "strip s = rev (dropWhile isspace (rev (dropWhile isspace s)))"

text \<open>
  The line boundaries of \<^verbatim>\<open>str.splitlines()\<close>: LF, VT, FF, CR, FS, GS, RS, NEL, LS and PS;
  CR immediately followed by LF is one boundary.
\<close>

definition is_linebreak :: "codepoint \<Rightarrow> bool" where
  "is_linebreak c \<longleftrightarrow>
     (10 \<le> c \<and> c \<le> 13) \<or> (28 \<le> c \<and> c \<le> 30) \<or> c = 133 \<or> c = 8232 \<or> c = 8233"

text \<open>
  \<^verbatim>\<open>s.splitlines()\<close>, scanning left to right with the current line accumulated in
  reverse. A boundary ends the current line (possibly empty); text after the last
  boundary is a final line only if it is non-empty.
\<close>

fun splitlines_from :: "str \<Rightarrow> str \<Rightarrow> str list" where
  "splitlines_from cur [] = (if cur = [] then [] else [rev cur])"
| "splitlines_from cur (c # cs) =
     (if c = 13 then
        (case cs of
           [] \<Rightarrow> [rev cur]
         | d # ds \<Rightarrow>
             if d = 10 then rev cur # splitlines_from [] ds
             else rev cur # splitlines_from [] cs)
      else if is_linebreak c then rev cur # splitlines_from [] cs
      else splitlines_from (c # cur) cs)"

definition splitlines :: "str \<Rightarrow> str list" where
  "splitlines s = splitlines_from [] s"

text \<open>\<^verbatim>\<open>sep.join(xs)\<close>.\<close>

fun join :: "str \<Rightarrow> str list \<Rightarrow> str" where
  "join sep [] = []"
| "join sep [x] = x"
| "join sep (x # y # ys) = x @ sep @ join sep (y # ys)"

section \<open>Version/tag helpers\<close>

text \<open>
  \<^verbatim>\<open>\d\<close> in a Python 3 \<^verbatim>\<open>str\<close> pattern matches every Unicode decimal digit (general
  category Nd). The table is that of Unicode 14.0 (CPython 3.11), as inclusive ranges.
\<close>

definition unicode_Nd :: "(codepoint \<times> codepoint) list" where
  "unicode_Nd =
     [(48, 57), (1632, 1641), (1776, 1785), (1984, 1993), (2406, 2415), (2534, 2543),
      (2662, 2671), (2790, 2799), (2918, 2927), (3046, 3055), (3174, 3183), (3302, 3311),
      (3430, 3439), (3558, 3567), (3664, 3673), (3792, 3801), (3872, 3881), (4160, 4169),
      (4240, 4249), (6112, 6121), (6160, 6169), (6470, 6479), (6608, 6617), (6784, 6793),
      (6800, 6809), (6992, 7001), (7088, 7097), (7232, 7241), (7248, 7257), (42528, 42537),
      (43216, 43225), (43264, 43273), (43472, 43481), (43504, 43513), (43600, 43609),
      (44016, 44025), (65296, 65305), (66720, 66729), (68912, 68921), (69734, 69743),
      (69872, 69881), (69942, 69951), (70096, 70105), (70384, 70393), (70736, 70745),
      (70864, 70873), (71248, 71257), (71360, 71369), (71472, 71481), (71904, 71913),
      (72016, 72025), (72784, 72793), (73040, 73049), (73120, 73129), (92768, 92777),
      (92864, 92873), (93008, 93017), (120782, 120831), (123200, 123209), (123632, 123641),
      (125264, 125273), (130032, 130041)]"

definition is_decimal :: "codepoint \<Rightarrow> bool" where
  "is_decimal c = list_ex (\<lambda>(lo, hi). lo \<le> c \<and> c \<le> hi) unicode_Nd"

text \<open>One literal character of a pattern: the rest of the input after it, if it is there.\<close>

fun expect :: "codepoint \<Rightarrow> str \<Rightarrow> str option" where
  "expect c [] = None"
| "expect c (x # xs) = (if x = c then Some xs else None)"

text \<open>
  \<^verbatim>\<open>\d+\<close>: one or more digits, greedy. In \<^verbatim>\<open>SEMVER_TAG_RE\<close> every \<^verbatim>\<open>\d+\<close> is followed by
  something no digit matches, so the longest run is the only one that can lead to a match.
\<close>

definition digits1 :: "str \<Rightarrow> str option" where
  "digits1 s = (if takeWhile is_decimal s = [] then None else Some (dropWhile is_decimal s))"

text \<open>
  \<^verbatim>\<open>$\<close> without \<^verbatim>\<open>re.MULTILINE\<close>: the end of the string, or just before a newline that is
  the last character of the string.
\<close>

definition at_dollar :: "str \<Rightarrow> bool" where
  "at_dollar s \<longleftrightarrow> s = [] \<or> s = [10]"

text \<open>
  \<^verbatim>\<open>SEMVER_TAG_RE.match(tag)\<close> for \<^verbatim>\<open>SEMVER_TAG_RE = re.compile(r"^v\d+\.\d+\.\d+$")\<close>,
  as the truth value the callers test.
\<close>

definition SEMVER_TAG_RE_match :: "str \<Rightarrow> bool" where
  "SEMVER_TAG_RE_match tag =
     (case do {
        r \<leftarrow> expect 118 tag;
        r \<leftarrow> digits1 r;
        r \<leftarrow> expect 46 r;
        r \<leftarrow> digits1 r;
        r \<leftarrow> expect 46 r;
        digits1 r
      } of None \<Rightarrow> False | Some r \<Rightarrow> at_dollar r)"

text \<open>
  What the script can raise: \<^verbatim>\<open>SystemExit\<close> with its message, whatever \<^verbatim>\<open>run\<close> raises, and
  \<^verbatim>\<open>EOFError\<close> from \<^verbatim>\<open>input\<close>.
\<close>

datatype error = SystemExit str | CalledProcessError "str list" | OSError | EOFError



section \<open>The collaborators: git and the clock\<close>

text \<open>
  \<^verbatim>\<open>datetime.utcnow().strftime("%Y-%m-%d")\<close> reads only the date fields. \<^verbatim>\<open>%Y\<close> is the
  year as a decimal number padded with zeros to four digits, \<^verbatim>\<open>%m\<close> and \<^verbatim>\<open>%d\<close> are padded to
  two.
\<close>

record datetime =
  year :: nat
  month :: nat
  day :: nat

function decimal :: "nat \<Rightarrow> str" where
  "decimal n = (if n < 10 then [48 + n] else decimal (n div 10) @ [48 + n mod 10])"
  by pat_completeness auto
termination
  by (relation "measure id") auto

definition zfill :: "nat \<Rightarrow> str \<Rightarrow> str" where
  "zfill w s = replicate (w - length s) 48 @ s"

definition strftime_Ymd :: "datetime \<Rightarrow> str" where
  "strftime_Ymd dt =
     zfill 4 (decimal (year dt)) @ [45] @ zfill 2 (decimal (month dt)) @ [45] @
     zfill 2 (decimal (day dt))"

text \<open>
  \<^verbatim>\<open>run(cmd)\<close> with \<^verbatim>\<open>check=True\<close> either returns the completed process, of which the
  callers below read only \<^verbatim>\<open>stdout\<close>, or raises. The git commands issued here only read
  the repository, so git is a function from the argument vector to that outcome.
  \<^verbatim>\<open>utcnow i\<close> is the clock as read during iteration \<open>i\<close> of the changelog loop.
\<close>

record world =
  run :: "str list \<Rightarrow> error + str"
  utcnow :: "nat \<Rightarrow> datetime"

section \<open>Git helpers\<close>

definition git_tag_list_sorted_desc :: "world \<Rightarrow> error + str list" where
  "git_tag_list_sorted_desc w =
     (case run w [lit ''git'', lit ''tag'', lit ''--sort=-creatordate''] of
        Inl e \<Rightarrow> Inl e
      | Inr stdout \<Rightarrow>
          (let tags = map strip (filter (\<lambda>t. strip t \<noteq> []) (splitlines stdout))
           in Inr (filter SEMVER_TAG_RE_match tags)))"

definition tag_date :: "world \<Rightarrow> str \<Rightarrow> error + str" where
  "tag_date w tag =
     (case run w [lit ''git'', lit ''log'', lit ''-1'', lit ''--format=%ad'',
                  lit ''--date=short'', tag] of
        Inl e \<Rightarrow> Inl e
      | Inr stdout \<Rightarrow> Inr (strip stdout))"

definition commits_between :: "world \<Rightarrow> str option \<Rightarrow> str \<Rightarrow> error + str list" where
  "commits_between w a_excl b_incl =
     (let rev = (case a_excl of None \<Rightarrow> b_incl | Some a \<Rightarrow> a @ lit ''..'' @ b_incl);
          fmt = lit ''%s''
      in case run w [lit ''git'', lit ''log'', lit ''--no-merges'',
                     lit ''--pretty=format:'' @ fmt, rev] of
           Inl e \<Rightarrow> Inl e
         | Inr stdout \<Rightarrow>
             Inr (map strip (filter (\<lambda>ln. strip ln \<noteq> []) (splitlines stdout))))"

section \<open>CHANGELOG builder\<close>

text \<open>
  The \<^verbatim>\<open>for idx, tag in enumerate(tags)\<close> loop of \<^verbatim>\<open>build_changelog\<close>, over the pairs still
  to be visited, with the list \<^verbatim>\<open>sections\<close> built so far. An error raised by a git call
  leaves the loop at once. The header's dash is U+2014.
\<close>

fun sections_loop :: "world \<Rightarrow> str list \<Rightarrow> (nat \<times> str) list \<Rightarrow> str list \<Rightarrow> error + str list" where
  "sections_loop w tags [] sections = Inr sections"
| "sections_loop w tags ((idx, tag) # rest) sections =
     (let prev_tag = (if idx + 1 < length tags then Some (tags ! (idx + 1)) else None)
      in case commits_between w prev_tag tag of
           Inl e \<Rightarrow> Inl e
         | Inr messages \<Rightarrow>
             (case tag_date w tag of
                Inl e \<Rightarrow> Inl e
              | Inr d \<Rightarrow>
                  (let date = (if d \<noteq> [] then d else strftime_Ymd (utcnow w idx));
                       sec = (lit ''## '' @ tag @ [32, 8212, 32] @ date) #
                             map (\<lambda>m. lit ''- '' @ m) messages
                   in sections_loop w tags rest (sections @ [join [10] sec]))))"

definition build_changelog :: "world \<Rightarrow> error + str" where
  "build_changelog w =
     (case git_tag_list_sorted_desc w of
        Inl e \<Rightarrow> Inl e
      | Inr tags \<Rightarrow>
          if tags = [] then Inr (lit ''No tags found.'' @ [10])
          else
            (case sections_loop w tags (enumerate 0 tags) [] of
               Inl e \<Rightarrow> Inl e
             | Inr sections \<Rightarrow> Inr (join [10, 10] sections @ [10])))"

text \<open>
  Names for three expressions of the loop body, used to state results: the previous tag
  of position \<open>i\<close>, the date shown for a tag whose \<^verbatim>\<open>tag_date\<close> is \<open>d\<close>, and the text of
  one section.
\<close>

abbreviation previous_tag :: "str list \<Rightarrow> nat \<Rightarrow> str option" where
  "previous_tag tags i \<equiv> (if i + 1 < length tags then Some (tags ! (i + 1)) else None)"

abbreviation shown_date :: "world \<Rightarrow> nat \<Rightarrow> str \<Rightarrow> str" where
  "shown_date w i d \<equiv> (if d \<noteq> [] then d else strftime_Ymd (utcnow w i))"

abbreviation section_text :: "str \<Rightarrow> str \<Rightarrow> str list \<Rightarrow> str" where
  "section_text tag date messages \<equiv>
     join [10] ((lit ''## '' @ tag @ [32, 8212, 32] @ date) # map (\<lambda>m. lit ''- '' @ m) messages)"


section \<open>Example repositories\<close>

text \<open>
  A repository with the tags \<^verbatim>\<open>v2.0.0\<close>, \<^verbatim>\<open>nightly\<close> and \<^verbatim>\<open>v1.0.0\<close> (newest first).
  The log of \<^verbatim>\<open>v1.0.0..v2.0.0\<close> holds a blank line and a subject with surrounding
  spaces, and git prints no date for \<^verbatim>\<open>v1.0.0\<close>. Every other command fails.
\<close>

definition release_git :: "str list \<Rightarrow> error + str" where
  "release_git cmd =
     (if cmd = [lit ''git'', lit ''tag'', lit ''--sort=-creatordate'']
        then Inr (lit ''v2.0.0'' @ [10] @ lit ''nightly'' @ [10] @ lit ''v1.0.0'' @ [10])
      else if cmd = [lit ''git'', lit ''log'', lit ''--no-merges'',
                     lit ''--pretty=format:%s'', lit ''v1.0.0'']
        then Inr (lit ''init'')
      else if cmd = [lit ''git'', lit ''log'', lit ''--no-merges'',
                     lit ''--pretty=format:%s'', lit ''v1.0.0..v2.0.0'']
        then Inr (lit ''feature A'' @ [10] @ lit ''  '' @ [10] @ lit '' fix B '')
      else if cmd = [lit ''git'', lit ''log'', lit ''--no-merges'',
                     lit ''--pretty=format:%s'', lit ''v2.0.0'']
        then Inr (lit ''feature A'' @ [10] @ lit ''  '' @ [10] @ lit '' fix B '' @ [10] @
                  lit ''init'')
      else if cmd = [lit ''git'', lit ''log'', lit ''-1'', lit ''--format=%ad'',
                     lit ''--date=short'', lit ''v2.0.0'']
        then Inr (lit ''2024-05-06'' @ [10])
      else if cmd = [lit ''git'', lit ''log'', lit ''-1'', lit ''--format=%ad'',
                     lit ''--date=short'', lit ''v1.0.0'']
        then Inr []
      else Inl (CalledProcessError cmd))"

definition clock_jan :: "nat \<Rightarrow> datetime" where
  "clock_jan i = \<lparr>year = 2026, month = 1, day = 9\<rparr>"

definition clock_nov :: "nat \<Rightarrow> datetime" where
  "clock_nov i = \<lparr>year = 2026, month = 11, day = 3\<rparr>"

definition clock_mixed :: "nat \<Rightarrow> datetime" where
  "clock_mixed i =
     (if i = 0 then \<lparr>year = 2026, month = 11, day = 3\<rparr> else \<lparr>year = 2026, month = 1, day = 9\<rparr>)"

definition release_world :: world where
  "release_world = \<lparr>run = release_git, utcnow = clock_jan\<rparr>"

definition release_world_later :: world where
  "release_world_later = \<lparr>run = release_git, utcnow = clock_nov\<rparr>"

definition release_world_mixed :: world where
  "release_world_mixed = \<lparr>run = release_git, utcnow = clock_mixed\<rparr>"

text \<open>A repository without tags: every git command prints nothing.\<close>

definition silent_git :: "str list \<Rightarrow> error + str" where
  "silent_git cmd = Inr []"

definition no_tags_world :: world where
  "no_tags_world = \<lparr>run = silent_git, utcnow = clock_jan\<rparr>"



text \<open>
  A repository with the single tag \<^verbatim>\<open>v1.0.0\<close> whose log consists of blank lines only.
\<close>

definition blank_log_git :: "str list \<Rightarrow> error + str" where
  "blank_log_git cmd =
     (if cmd = [lit ''git'', lit ''tag'', lit ''--sort=-creatordate'']
        then Inr (lit ''v1.0.0'' @ [10])
      else if cmd = [lit ''git'', lit ''log'', lit ''--no-merges'',
                     lit ''--pretty=format:%s'', lit ''v1.0.0'']
        then Inr (lit ''  '' @ [10] @ [9] @ [10])
      else if cmd = [lit ''git'', lit ''log'', lit ''-1'', lit ''--format=%ad'',
                     lit ''--date=short'', lit ''v1.0.0'']
        then Inr (lit ''2023-02-01'' @ [10])
      else Inl (CalledProcessError cmd))"

definition blank_log_world :: world where
  "blank_log_world = \<lparr>run = blank_log_git, utcnow = clock_jan\<rparr>"

section \<open>Strings: stripping and line splitting\<close>

declare splitlines_from.simps [simp del]
declare decimal.simps [simp del]

lemma is_decimal_ascii: "c < 1632 \<Longrightarrow> is_decimal c \<longleftrightarrow> 48 \<le> c \<and> c \<le> 57"
  by (auto simp add: is_decimal_def unicode_Nd_def)

lemma strip_decomp: "\<exists>pre post. s = pre @ strip s @ post"
proof -
  let ?z = "dropWhile isspace s"
  have z: "?z = strip s @ rev (takeWhile isspace (rev ?z))"
    unfolding strip_def by (metis rev_append rev_rev_ident takeWhile_dropWhile_id)
  have "s = takeWhile isspace s @ ?z" by simp
  with z have "s = takeWhile isspace s @ strip s @ rev (takeWhile isspace (rev ?z))" by simp
  then show ?thesis by blast
qed

lemma set_strip: "set (strip s) \<subseteq> set s"
proof -
  obtain pre post where "s = pre @ strip s @ post" using strip_decomp by blast
  then have "set s = set pre \<union> set (strip s) \<union> set post" by (metis set_append Un_assoc)
  then show ?thesis by blast
qed

lemma last_strip: "strip s \<noteq> [] \<Longrightarrow> \<not> isspace (last (strip s))"
proof -
  assume a: "strip s \<noteq> []"
  let ?y = "dropWhile isspace (rev (dropWhile isspace s))"
  from a have y: "?y \<noteq> []" by (simp add: strip_def)
  then have "\<not> isspace (hd ?y)" by (rule hd_dropWhile)
  moreover have "last (strip s) = hd ?y" using y by (simp add: strip_def last_rev)
  ultimately show ?thesis by simp
qed

lemma hd_strip: "strip s \<noteq> [] \<Longrightarrow> \<not> isspace (hd (strip s))"
proof -
  assume a: "strip s \<noteq> []"
  let ?z = "dropWhile isspace s"
  have z: "?z = strip s @ rev (takeWhile isspace (rev ?z))"
    unfolding strip_def by (metis rev_append rev_rev_ident takeWhile_dropWhile_id)
  with a have "?z \<noteq> []" by (metis append_is_Nil_conv)
  then have "\<not> isspace (hd ?z)" by (rule hd_dropWhile)
  moreover from z a have "hd ?z = hd (strip s)" by (metis hd_append2)
  ultimately show ?thesis by simp
qed

lemma strip_fixed: "s \<noteq> [] \<Longrightarrow> \<not> isspace (hd s) \<Longrightarrow> \<not> isspace (last s) \<Longrightarrow> strip s = s"
proof -
  assume a: "s \<noteq> []" "\<not> isspace (hd s)" "\<not> isspace (last s)"
  then have 1: "dropWhile isspace s = s" by (cases s) auto
  from a have "rev s \<noteq> []" "\<not> isspace (hd (rev s))" by (simp_all add: hd_rev)
  then have "dropWhile isspace (rev s) = rev s" by (cases "rev s") auto
  with 1 show ?thesis by (simp add: strip_def)
qed

lemma strip_idem: "strip (strip s) = strip s"
proof (cases "strip s = []")
  case True
  have "strip [] = []" by (simp add: strip_def)
  with True show ?thesis by simp
next
  case False then show ?thesis by (simp add: strip_fixed hd_strip last_strip)
qed

lemma splitlines_from_no_break:
  "list_all (\<lambda>c. \<not> is_linebreak c) cur \<Longrightarrow>
   list_all (list_all (\<lambda>c. \<not> is_linebreak c)) (splitlines_from cur s)"
proof (induction cur s rule: splitlines_from.induct)
  case (1 cur)
  then show ?case by (simp add: splitlines_from.simps(1))
next
  case (2 cur c cs)
  note unfold = splitlines_from.simps(2)[of cur c cs]
  show ?case
  proof (cases "c = 13")
    case True
    show ?thesis
    proof (cases cs)
      case Nil
      show ?thesis unfolding unfold using True Nil "2.prems" by simp
    next
      case (Cons d ds)
      show ?thesis
      proof (cases "d = 10")
        case eq10: True
        have "list_all (list_all (\<lambda>c. \<not> is_linebreak c)) (splitlines_from [] ds)"
          using "2.IH"(1)[OF True Cons eq10] by simp
        then show ?thesis unfolding unfold using True Cons eq10 "2.prems" by simp
      next
        case ne10: False
        have "list_all (list_all (\<lambda>c. \<not> is_linebreak c)) (splitlines_from [] cs)"
          using "2.IH"(2)[OF True Cons ne10] by simp
        then show ?thesis unfolding unfold using True Cons ne10 "2.prems" by simp
      qed
    qed
  next
    case False
    show ?thesis
    proof (cases "is_linebreak c")
      case True
      have "list_all (list_all (\<lambda>c. \<not> is_linebreak c)) (splitlines_from [] cs)"
        using "2.IH"(3)[OF False True] by simp
      then show ?thesis unfolding unfold using False True "2.prems" by simp
    next
      case nb: False
      from "2.prems" nb have "list_all (\<lambda>c. \<not> is_linebreak c) (c # cur)" by simp
      then have "list_all (list_all (\<lambda>c. \<not> is_linebreak c)) (splitlines_from (c # cur) cs)"
        using "2.IH"(4)[OF False nb] by simp
      then show ?thesis unfolding unfold using False nb by simp
    qed
  qed
qed

lemma splitlines_no_break: "ln \<in> set (splitlines s) \<Longrightarrow> c \<in> set ln \<Longrightarrow> \<not> is_linebreak c"
  using splitlines_from_no_break [of "[]" s] unfolding splitlines_def list_all_iff by simp

section \<open>The tag pattern\<close>

lemma expect_Some: "expect c s = Some r \<longleftrightarrow> s = c # r"
  by (cases s) auto

lemma list_all_takeWhile: "list_all P (takeWhile P s)"
  by (induction s) simp_all

lemma digits1_SomeD:
  assumes "digits1 s = Some r"
  shows "\<exists>a. a \<noteq> [] \<and> list_all is_decimal a \<and> s = a @ r"
proof -
  let ?a = "takeWhile is_decimal s"
  from assms have ne: "?a \<noteq> []" and r: "r = dropWhile is_decimal s"
    by (simp_all add: digits1_def split: if_splits)
  have "list_all is_decimal ?a" by (rule list_all_takeWhile)
  moreover have "s = ?a @ r" using r by simp
  ultimately show ?thesis using ne by blast
qed


lemma SEMVER_TAG_RE_matchD:
  assumes "SEMVER_TAG_RE_match tag"
  shows "\<exists>a b c r. a \<noteq> [] \<and> list_all is_decimal a \<and> b \<noteq> [] \<and> list_all is_decimal b \<and>
           c \<noteq> [] \<and> list_all is_decimal c \<and> (r = [] \<or> r = [10]) \<and>
           tag = [118] @ a @ [46] @ b @ [46] @ c @ r"
proof -
  from assms obtain r1 r2 r3 r4 r5 r6 where
    e1: "expect 118 tag = Some r1" and d1: "digits1 r1 = Some r2" and
    e2: "expect 46 r2 = Some r3" and d2: "digits1 r3 = Some r4" and
    e3: "expect 46 r4 = Some r5" and d3: "digits1 r5 = Some r6" and
    fin: "at_dollar r6"
    by (auto simp: SEMVER_TAG_RE_match_def split: option.splits Option.bind_splits)
  from d1 obtain a where a: "a \<noteq> []" "list_all is_decimal a" "r1 = a @ r2"
    using digits1_SomeD by blast
  from d2 obtain b where b: "b \<noteq> []" "list_all is_decimal b" "r3 = b @ r4"
    using digits1_SomeD by blast
  from d3 obtain c where c: "c \<noteq> []" "list_all is_decimal c" "r5 = c @ r6"
    using digits1_SomeD by blast
  from e1 e2 e3 a(3) b(3) c(3) have "tag = [118] @ a @ [46] @ b @ [46] @ c @ r6"
    by (simp add: expect_Some)
  moreover from fin have "r6 = [] \<or> r6 = [10]" by (simp add: at_dollar_def)
  ultimately show ?thesis using a(1,2) b(1,2) c(1,2) by blast
qed



section \<open>Joining\<close>

lemma join_Cons: "xs \<noteq> [] \<Longrightarrow> join sep (x # xs) = x @ sep @ join sep xs"
  by (cases xs) simp_all

lemma join_snoc: "xs \<noteq> [] \<Longrightarrow> join sep (xs @ [x]) = join sep xs @ sep @ x"
proof (induction xs)
  case Nil then show ?case by simp
next
  case (Cons y ys)
  show ?case
  proof (cases ys)
    case Nil then show ?thesis by simp
  next
    case (Cons z zs)
    with Cons.IH have "join sep (ys @ [x]) = join sep ys @ sep @ x" by simp
    moreover have "join sep (y # ys @ [x]) = y @ sep @ join sep (ys @ [x])"
      by (rule join_Cons) simp
    moreover have "join sep (y # ys) = y @ sep @ join sep ys"
      using Cons by (intro join_Cons) simp
    ultimately show ?thesis by simp
  qed
qed

lemma last_join: "xs \<noteq> [] \<Longrightarrow> last xs \<noteq> [] \<Longrightarrow> last (join sep xs) = last (last xs)"
proof (induction xs rule: rev_induct)
  case Nil then show ?case by simp
next
  case (snoc x xs)
  show ?case
  proof (cases xs)
    case Nil then show ?thesis by simp
  next
    case (Cons y ys)
    then have "join sep (xs @ [x]) = join sep xs @ sep @ x" by (intro join_snoc) simp
    with snoc.prems show ?thesis by simp
  qed
qed

lemma hd_join: "xs \<noteq> [] \<Longrightarrow> hd xs \<noteq> [] \<Longrightarrow> hd (join sep xs) = hd (hd xs)"
proof (cases xs)
  case Nil then show "xs \<noteq> [] \<Longrightarrow> ?thesis" by simp
next
  case (Cons y ys)
  assume "hd xs \<noteq> []"
  with Cons have y: "y \<noteq> []" by simp
  show ?thesis
  proof (cases ys)
    case Nil with Cons show ?thesis by simp
  next
    case c2: (Cons z zs)
    with Cons y show ?thesis by simp
  qed
qed

lemma join_nonempty: "xs \<noteq> [] \<Longrightarrow> last xs \<noteq> [] \<Longrightarrow> join sep xs \<noteq> []"
proof (induction xs rule: rev_induct)
  case Nil then show ?case by simp
next
  case (snoc x xs)
  show ?case
  proof (cases "xs = []")
    case True with snoc.prems show ?thesis by simp
  next
    case False
    then have "join sep (xs @ [x]) = join sep xs @ sep @ x" by (rule join_snoc)
    with snoc.prems show ?thesis by simp
  qed
qed

section \<open>The loop of the changelog builder\<close>

lemma sections_loop_Inr:
  assumes "list_all (\<lambda>(idx, tag). commits_between w (previous_tag tags idx) tag = Inr (M idx) \<and>
                                  tag_date w tag = Inr (D idx)) ps"
  shows "sections_loop w tags ps acc =
         Inr (acc @ map (\<lambda>(idx, tag). section_text tag (shown_date w idx (D idx)) (M idx)) ps)"
  using assms
proof (induction ps arbitrary: acc)
  case Nil
  then show ?case by simp
next
  case (Cons p ps)
  obtain idx tag where p: "p = (idx, tag)" by (cases p)
  from Cons.prems p have
    cb: "commits_between w (previous_tag tags idx) tag = Inr (M idx)" and
    td: "tag_date w tag = Inr (D idx)" and
    rest: "list_all (\<lambda>(idx, tag). commits_between w (previous_tag tags idx) tag = Inr (M idx) \<and>
                                  tag_date w tag = Inr (D idx)) ps"
    by simp_all
  have "sections_loop w tags (p # ps) acc =
        sections_loop w tags ps (acc @ [section_text tag (shown_date w idx (D idx)) (M idx)])"
    unfolding p sections_loop.simps Let_def cb td by (simp only: sum.case)
  also have "\<dots> = Inr ((acc @ [section_text tag (shown_date w idx (D idx)) (M idx)]) @
                 map (\<lambda>(idx, tag). section_text tag (shown_date w idx (D idx)) (M idx)) ps)"
    by (rule Cons.IH [OF rest])
  finally show ?case by (simp add: p)
qed

lemma sections_loop_InrD:
  assumes "sections_loop w tags ps acc = Inr secs"
  shows "list_all (\<lambda>(idx, tag). (\<exists>m. commits_between w (previous_tag tags idx) tag = Inr m) \<and>
                                  (\<exists>d. tag_date w tag = Inr d)) ps"
  using assms
proof (induction ps arbitrary: acc)
  case Nil
  then show ?case by simp
next
  case (Cons p ps)
  obtain idx tag where p: "p = (idx, tag)" by (cases p)
  from Cons.prems obtain m where cb: "commits_between w (previous_tag tags idx) tag = Inr m"
    unfolding p sections_loop.simps Let_def by (cases "commits_between w (previous_tag tags idx) tag") simp_all
  from Cons.prems obtain d where td: "tag_date w tag = Inr d"
    unfolding p sections_loop.simps Let_def cb by (cases "tag_date w tag") simp_all
  from Cons.prems have "sections_loop w tags ps (acc @ [section_text tag (shown_date w idx d) m]) = Inr secs"
    unfolding p sections_loop.simps Let_def cb td by (simp only: sum.case)
  then have "list_all (\<lambda>(idx, tag). (\<exists>m. commits_between w (previous_tag tags idx) tag = Inr m) \<and>
                                  (\<exists>d. tag_date w tag = Inr d)) ps"
    by (rule Cons.IH)
  with cb td show ?case by (simp add: p)
qed

lemma map_enumerate_upt:
  "map f (enumerate 0 xs) = map (\<lambda>i. f (i, xs ! i)) [0..<length xs]"
  by (rule nth_equalityI) (simp_all add: nth_enumerate_eq)

lemma list_all_enumerate:
  "list_all P (enumerate 0 xs) \<longleftrightarrow> (\<forall>i<length xs. P (i, xs ! i))"
proof -
  have "list_all P (enumerate 0 xs) \<longleftrightarrow> (\<forall>i<length (enumerate 0 xs). P (enumerate 0 xs ! i))"
    by (rule list_all_length)
  then show ?thesis by (simp add: nth_enumerate_eq)
qed

lemma loop_of_build:
  assumes out: "build_changelog w = Inr out"
    and tags: "git_tag_list_sorted_desc w = Inr tags" and ne: "tags \<noteq> []"
  shows "\<exists>secs. sections_loop w tags (enumerate 0 tags) [] = Inr secs \<and> out = join [10, 10] secs @ [10]"
proof (cases "sections_loop w tags (enumerate 0 tags) []")
  case (Inl e)
  have "build_changelog w = Inl e"
    using ne by (simp add: build_changelog_def tags Inl)
  with out show ?thesis by simp
next
  case (Inr secs)
  have "build_changelog w = Inr (join [10, 10] secs @ [10])"
    using ne by (simp add: build_changelog_def tags Inr)
  with out Inr show ?thesis by simp
qed

lemma build_changelog_Inr:
  assumes tags: "git_tag_list_sorted_desc w = Inr tags" and ne: "tags \<noteq> []"
    and cb: "\<And>i. i < length tags \<Longrightarrow> commits_between w (previous_tag tags i) (tags ! i) = Inr (M i)"
    and td: "\<And>i. i < length tags \<Longrightarrow> tag_date w (tags ! i) = Inr (D i)"
  shows "build_changelog w =
         Inr (join [10, 10]
                (map (\<lambda>i. section_text (tags ! i) (shown_date w i (D i)) (M i)) [0..<length tags]) @
              [10])"
proof -
  have "list_all (\<lambda>(idx, tag). commits_between w (previous_tag tags idx) tag = Inr (M idx) \<and>
                                tag_date w tag = Inr (D idx)) (enumerate 0 tags)"
    unfolding list_all_enumerate using cb td by simp
  then have "sections_loop w tags (enumerate 0 tags) [] =
      Inr ([] @ map (\<lambda>(idx, tag). section_text tag (shown_date w idx (D idx)) (M idx)) (enumerate 0 tags))"
    by (rule sections_loop_Inr)
  also have "map (\<lambda>(idx, tag). section_text tag (shown_date w idx (D idx)) (M idx)) (enumerate 0 tags) =
      map (\<lambda>i. section_text (tags ! i) (shown_date w i (D i)) (M i)) [0..<length tags]"
    unfolding map_enumerate_upt by simp
  finally have loop: "sections_loop w tags (enumerate 0 tags) [] =
      Inr (map (\<lambda>i. section_text (tags ! i) (shown_date w i (D i)) (M i)) [0..<length tags])"
    by simp
  show ?thesis
    unfolding build_changelog_def tags using ne by (simp only: sum.case if_False loop)
qed

lemma enumerate_calls_ok:
  assumes "list_all (\<lambda>(idx, tag). (\<exists>m. commits_between w (previous_tag tags idx) tag = Inr m) \<and>
                                  (\<exists>d. tag_date w tag = Inr d)) (enumerate 0 tags)"
  shows "\<forall>i<length tags. (\<exists>m. commits_between w (previous_tag tags i) (tags ! i) = Inr m) \<and>
                                  (\<exists>d. tag_date w (tags ! i) = Inr d)"
proof (intro allI impI)
  fix i assume i: "i < length tags"
  from assms have "\<forall>i<length (enumerate 0 tags). (\<lambda>(idx, tag). (\<exists>m. commits_between w (previous_tag tags idx) tag = Inr m) \<and>
                                  (\<exists>d. tag_date w tag = Inr d)) (enumerate 0 tags ! i)"
    by (simp only: list_all_length)
  with i have "(\<lambda>(idx, tag). (\<exists>m. commits_between w (previous_tag tags idx) tag = Inr m) \<and>
                                  (\<exists>d. tag_date w tag = Inr d)) (enumerate 0 tags ! i)"
    by simp
  moreover have "enumerate 0 tags ! i = (i, tags ! i)" using i by (simp add: nth_enumerate_eq)
  ultimately show "(\<exists>m. commits_between w (previous_tag tags i) (tags ! i) = Inr m) \<and>
                                  (\<exists>d. tag_date w (tags ! i) = Inr d)"
    by (simp only: prod.case)
qed

lemma calls_ok_functions:
  assumes all: "\<forall>i<length tags. (\<exists>m. commits_between w (previous_tag tags i) (tags ! i) = Inr m) \<and>
                                  (\<exists>d. tag_date w (tags ! i) = Inr d)"
  shows "\<exists>M D. \<forall>i<length tags.
           commits_between w (previous_tag tags i) (tags ! i) = Inr (M i) \<and>
           tag_date w (tags ! i) = Inr (D i)"
proof -
  let ?M = "\<lambda>i. projr (commits_between w (previous_tag tags i) (tags ! i))"
  let ?D = "\<lambda>i. projr (tag_date w (tags ! i))"
  have "\<forall>i<length tags.
           commits_between w (previous_tag tags i) (tags ! i) = Inr (?M i) \<and>
           tag_date w (tags ! i) = Inr (?D i)"
  proof (intro allI impI)
    fix i assume i: "i < length tags"
    from all i obtain m where m: "commits_between w (previous_tag tags i) (tags ! i) = Inr m"
      by blast
    from all i obtain d where d: "tag_date w (tags ! i) = Inr d" by blast
    have 1: "commits_between w (previous_tag tags i) (tags ! i) = Inr (?M i)"
      unfolding m by (simp only: sum.sel)
    have 2: "tag_date w (tags ! i) = Inr (?D i)"
      unfolding d by (simp only: sum.sel)
    from 1 2 show "commits_between w (previous_tag tags i) (tags ! i) = Inr (?M i) \<and>
           tag_date w (tags ! i) = Inr (?D i)" by (rule conjI)
  qed
  then show ?thesis by (intro exI)
qed

lemma build_changelog_InrD:
  assumes out: "build_changelog w = Inr out"
    and tags: "git_tag_list_sorted_desc w = Inr tags" and ne: "tags \<noteq> []"
  shows "\<exists>M D. \<forall>i<length tags.
           commits_between w (previous_tag tags i) (tags ! i) = Inr (M i) \<and>
           tag_date w (tags ! i) = Inr (D i)"
proof -
  from loop_of_build [OF out tags ne] obtain secs where
    "sections_loop w tags (enumerate 0 tags) [] = Inr secs" by blast
  then have "list_all (\<lambda>(idx, tag). (\<exists>m. commits_between w (previous_tag tags idx) tag = Inr m) \<and>
                                  (\<exists>d. tag_date w tag = Inr d)) (enumerate 0 tags)"
    by (rule sections_loop_InrD)
  then have "\<forall>i<length tags. (\<exists>m. commits_between w (previous_tag tags i) (tags ! i) = Inr m) \<and>
                                  (\<exists>d. tag_date w (tags ! i) = Inr d)"
    by (rule enumerate_calls_ok)
  then show ?thesis by (rule calls_ok_functions)
qed

section \<open>What a section is made of\<close>

lemma hd_section_text: "hd (section_text tag date ms) = 35"
proof -
  have "hd (section_text tag date ms) = hd (lit ''## '' @ tag @ [32, 8212, 32] @ date)"
    by (subst hd_join) (simp_all add: lit_def)
  then show ?thesis by (simp add: lit_def)
qed

lemma last_section_text:
  assumes "date \<noteq> []" "list_all (\<lambda>m. m \<noteq> []) ms"
  shows "section_text tag date ms \<noteq> [] \<and>
         last (section_text tag date ms) = (if ms = [] then last date else last (last ms))"
proof (cases "ms = []")
  case True
  with assms(1) show ?thesis by simp
next
  case False
  let ?h = "lit ''## '' @ tag @ [32, 8212, 32] @ date"
  let ?bs = "map (\<lambda>m. lit ''- '' @ m) ms"
  from False have bs: "?bs \<noteq> []" by simp
  from False assms(2) have lm: "last ms \<noteq> []" by (simp add: list_all_iff)
  from False have l: "last ?bs = lit ''- '' @ last ms" by (simp add: last_map)
  with lm have l2: "last ?bs \<noteq> []" by simp
  have j: "join [10] ?bs \<noteq> []" using bs l2 by (rule join_nonempty)
  have "last (join [10] ?bs) = last (last ?bs)" using bs l2 by (rule last_join)
  with l lm have lj: "last (join [10] ?bs) = last (last ms)" by simp
  have e: "join [10] (?h # ?bs) = ?h @ [10] @ join [10] ?bs" using bs by (rule join_Cons)
  have "last (?h @ [10] @ join [10] ?bs) = last (join [10] ?bs)" using j by simp
  with lj False show ?thesis unfolding e by simp
qed

lemma commits_between_messages:
  assumes "commits_between w a b = Inr ms"
  shows "list_all (\<lambda>m. m \<noteq> [] \<and> strip m = m \<and> \<not> isspace (hd m) \<and> \<not> isspace (last m) \<and>
                       list_all (\<lambda>c. \<not> is_linebreak c) m) ms"
proof -
  from assms obtain stdout where
    ms: "ms = map strip (filter (\<lambda>ln. strip ln \<noteq> []) (splitlines stdout))"
    by (auto simp: commits_between_def Let_def split: sum.splits)
  have "m \<noteq> [] \<and> strip m = m \<and> \<not> isspace (hd m) \<and> \<not> isspace (last m) \<and>
        list_all (\<lambda>c. \<not> is_linebreak c) m" if "m \<in> set ms" for m
  proof -
    from that ms obtain ln where ln: "ln \<in> set (splitlines stdout)" "strip ln \<noteq> []" "m = strip ln"
      by auto
    have "\<forall>c \<in> set m. \<not> is_linebreak c"
    proof
      fix c assume "c \<in> set m"
      with ln(3) set_strip [of ln] have "c \<in> set ln" by blast
      with ln(1) show "\<not> is_linebreak c" by (rule splitlines_no_break)
    qed
    then have "list_all (\<lambda>c. \<not> is_linebreak c) m" by (simp add: list_all_iff)
    with ln(2,3) show ?thesis by (simp add: hd_strip last_strip strip_idem)
  qed
  then show ?thesis unfolding list_all_iff by blast
qed

lemma stripped_semver_exact:
  assumes m: "SEMVER_TAG_RE_match (strip x)"
  shows "\<exists>a b c. a \<noteq> [] \<and> list_all is_decimal a \<and> b \<noteq> [] \<and> list_all is_decimal b \<and>
           c \<noteq> [] \<and> list_all is_decimal c \<and> strip x = [118] @ a @ [46] @ b @ [46] @ c"
proof -
  from SEMVER_TAG_RE_matchD [OF m] obtain a b c r where
    abc: "a \<noteq> []" "list_all is_decimal a" "b \<noteq> []" "list_all is_decimal b"
         "c \<noteq> []" "list_all is_decimal c" and r: "r = [] \<or> r = [10]" and
    t: "strip x = [118] @ a @ [46] @ b @ [46] @ c @ r" by blast
  have "r = []"
  proof (rule ccontr)
    assume "r \<noteq> []"
    with r have r10: "r = [10]" by simp
    have "last (strip x) = 10" unfolding t r10 by simp
    moreover have "strip x \<noteq> []" unfolding t by simp
    then have "\<not> isspace (last (strip x))" by (rule last_strip)
    ultimately show False by (simp add: isspace_def)
  qed
  with t have "strip x = [118] @ a @ [46] @ b @ [46] @ c" by simp
  with abc show ?thesis by (intro exI conjI)
qed

section \<open>The fallback date\<close>

lemma decimal_lt10: "n < 10 \<Longrightarrow> decimal n = [48 + n]"
  by (subst decimal.simps) simp

lemma decimal_ge10: "10 \<le> n \<Longrightarrow> decimal n = decimal (n div 10) @ [48 + n mod 10]"
  by (subst decimal.simps) simp

lemma zfill2_decimal: "n < 100 \<Longrightarrow> zfill 2 (decimal n) = [48 + n div 10, 48 + n mod 10]"
proof (cases "n < 10")
  case True
  then show ?thesis by (simp add: decimal_lt10 zfill_def)
next
  case False
  assume "n < 100"
  with False have "n div 10 < 10" "10 \<le> n" by simp_all
  then show ?thesis by (simp add: decimal_ge10 decimal_lt10 zfill_def)
qed

lemma decimal3: "100 \<le> n \<Longrightarrow> n < 1000 \<Longrightarrow> decimal n = [48 + n div 100, 48 + n div 10 mod 10, 48 + n mod 10]"
proof -
  assume a: "100 \<le> n" "n < 1000"
  then have b: "10 \<le> n" "10 \<le> n div 10" "n div 10 div 10 < 10" by simp_all
  have c: "n div 10 div 10 = n div 100" by (simp add: div_mult2_eq[symmetric])
  have "decimal n = decimal (n div 10) @ [48 + n mod 10]" using b(1) by (rule decimal_ge10)
  also have "decimal (n div 10) = decimal (n div 10 div 10) @ [48 + n div 10 mod 10]"
    using b(2) by (rule decimal_ge10)
  also have "decimal (n div 10 div 10) = [48 + n div 10 div 10]" using b(3) by (rule decimal_lt10)
  finally show ?thesis unfolding c by simp
qed

lemma decimal4: "1000 \<le> n \<Longrightarrow> n < 10000 \<Longrightarrow>
  decimal n = [48 + n div 1000, 48 + n div 100 mod 10, 48 + n div 10 mod 10, 48 + n mod 10]"
proof -
  assume a: "1000 \<le> n" "n < 10000"
  then have b: "10 \<le> n" "100 \<le> n div 10" "n div 10 < 1000" by simp_all
  have c: "n div 10 div 100 = n div 1000" "n div 10 div 10 = n div 100"
    by (simp_all add: div_mult2_eq[symmetric])
  have d3: "decimal (n div 10) =
      [48 + n div 10 div 100, 48 + n div 10 div 10 mod 10, 48 + n div 10 mod 10]"
    using b(2,3) by (rule decimal3)
  have "decimal n = decimal (n div 10) @ [48 + n mod 10]" using b(1) by (rule decimal_ge10)
  then show ?thesis unfolding d3 c by simp
qed

lemma strftime_Ymd_digits:
  assumes "1000 \<le> year dt" "year dt < 10000" "month dt < 100" "day dt < 100"
  shows "strftime_Ymd dt =
     [48 + year dt div 1000, 48 + year dt div 100 mod 10, 48 + year dt div 10 mod 10,
      48 + year dt mod 10, 45, 48 + month dt div 10, 48 + month dt mod 10, 45,
      48 + day dt div 10, 48 + day dt mod 10]"
proof -
  have y: "zfill 4 (decimal (year dt)) =
      [48 + year dt div 1000, 48 + year dt div 100 mod 10, 48 + year dt div 10 mod 10,
       48 + year dt mod 10]"
    unfolding decimal4 [OF assms(1,2)] by (simp add: zfill_def)
  show ?thesis
    unfolding strftime_Ymd_def y zfill2_decimal [OF assms(3)] zfill2_decimal [OF assms(4)]
    by simp
qed

lemma clock_jan_today: "strftime_Ymd (clock_jan i) = lit ''2026-01-09''"
  by (simp add: strftime_Ymd_digits clock_jan_def lit_def)

lemma clock_nov_today: "strftime_Ymd (clock_nov i) = lit ''2026-11-03''"
  by (simp add: strftime_Ymd_digits clock_nov_def lit_def)

lemma isspace_newline: "isspace 10"
  by (simp add: isspace_def)

lemma decimal_last: "decimal n \<noteq> [] \<and> last (decimal n) = 48 + n mod 10"
proof (cases "n < 10")
  case True
  then show ?thesis by (simp add: decimal_lt10)
next
  case False
  then have "decimal n = decimal (n div 10) @ [48 + n mod 10]" by (simp add: decimal_ge10)
  then show ?thesis by simp
qed

lemma strftime_Ymd_last:
  "strftime_Ymd dt \<noteq> [] \<and> last (strftime_Ymd dt) = 48 + day dt mod 10"
proof -
  have "zfill 2 (decimal (day dt)) \<noteq> [] \<and>
        last (zfill 2 (decimal (day dt))) = 48 + day dt mod 10"
    using decimal_last [of "day dt"] by (simp add: zfill_def)
  then show ?thesis by (simp add: strftime_Ymd_def)
qed

lemma tag_date_last:
  assumes "tag_date w tag = Inr d" "d \<noteq> []"
  shows "\<not> isspace (last d)"
proof -
  from assms(1) obtain stdout where "d = strip stdout"
    by (auto simp: tag_date_def split: sum.splits)
  with assms(2) show ?thesis by (simp add: last_strip)
qed

lemma shown_date_last:
  assumes "tag_date w tag = Inr d"
  shows "shown_date w i d \<noteq> [] \<and> last (shown_date w i d) \<noteq> 10"
proof (cases "d = []")
  case True
  have "last (strftime_Ymd (utcnow w i)) \<noteq> 10"
    using strftime_Ymd_last [of "utcnow w i"] by simp
  with True strftime_Ymd_last [of "utcnow w i"] show ?thesis by simp
next
  case False
  with assms have "\<not> isspace (last d)" by (rule tag_date_last)
  then have "last d \<noteq> 10" using isspace_newline by auto
  with False show ?thesis by simp
qed

section \<open>Sections and the end of the document\<close>

lemma section_facts:
  assumes cb: "commits_between w a tag = Inr ms" and td: "tag_date w tag = Inr d"
  shows "hd (section_text tag (shown_date w i d) ms) = 35 \<and>
         section_text tag (shown_date w i d) ms \<noteq> [] \<and>
         last (section_text tag (shown_date w i d) ms) \<noteq> 10 \<and>
         list_all (\<lambda>m. m \<noteq> [] \<and> list_all (\<lambda>c. \<not> is_linebreak c) m) ms"
proof -
  from commits_between_messages [OF cb] have
    all: "\<forall>m \<in> set ms. m \<noteq> [] \<and> \<not> isspace (last m) \<and> list_all (\<lambda>c. \<not> is_linebreak c) m"
    by (simp add: list_all_iff)
  then have ne: "list_all (\<lambda>m. m \<noteq> []) ms"
    and lb: "list_all (\<lambda>m. m \<noteq> [] \<and> list_all (\<lambda>c. \<not> is_linebreak c) m) ms"
    by (simp_all add: list_all_iff)
  from shown_date_last [OF td] have d: "shown_date w i d \<noteq> []" "last (shown_date w i d) \<noteq> 10"
    by simp_all
  from last_section_text [OF d(1) ne] have
    s: "section_text tag (shown_date w i d) ms \<noteq> []"
       "last (section_text tag (shown_date w i d) ms) =
          (if ms = [] then last (shown_date w i d) else last (last ms))"
    by simp_all
  have "last (section_text tag (shown_date w i d) ms) \<noteq> 10"
  proof (cases "ms = []")
    case True
    with s(2) d(2) show ?thesis by simp
  next
    case False
    then have "last ms \<in> set ms" by simp
    with all have "\<not> isspace (last (last ms))" by blast
    then have "last (last ms) \<noteq> 10" using isspace_newline by auto
    with s(2) False show ?thesis by simp
  qed
  with s(1) lb hd_section_text [of tag "shown_date w i d" ms] show ?thesis by simp
qed

lemma document_end:
  assumes "secs \<noteq> []" "last secs \<noteq> []" "last (last secs) \<noteq> 10"
  shows "join [10, 10] secs \<noteq> [] \<and> last (join [10, 10] secs) \<noteq> 10"
proof -
  have "join [10, 10] secs \<noteq> []" using assms(1,2) by (rule join_nonempty)
  moreover have "last (join [10, 10] secs) = last (last secs)" using assms(1,2) by (rule last_join)
  ultimately show ?thesis using assms(3) by simp
qed

section \<open>The example repositories, evaluated\<close>

lemma all_less_two: "(\<forall>i<length [x, y]. P i) \<longleftrightarrow> P 0 \<and> P (Suc 0)"
  by (auto simp: less_Suc_eq)

lemma upt_two: "[0..<length [x, y]] = [0, Suc 0]"
  by (simp add: upt_rec)

lemma release_world_tags:
  "git_tag_list_sorted_desc release_world = Inr [lit ''v2.0.0'', lit ''v1.0.0'']"
  by (simp add: git_tag_list_sorted_desc_def release_world_def release_git_def lit_def
      splitlines_def splitlines_from.simps is_linebreak_def strip_def isspace_def
      SEMVER_TAG_RE_match_def digits1_def is_decimal_ascii at_dollar_def)

lemma release_world_log_v1:
  "commits_between release_world None (lit ''v1.0.0'') = Inr [lit ''init'']"
  by (simp add: commits_between_def release_world_def release_git_def lit_def
      splitlines_def splitlines_from.simps is_linebreak_def strip_def isspace_def)

lemma release_world_log_v2:
  "commits_between release_world (Some (lit ''v1.0.0'')) (lit ''v2.0.0'') =
   Inr [lit ''feature A'', lit ''fix B'']"
  by (simp add: commits_between_def release_world_def release_git_def lit_def
      splitlines_def splitlines_from.simps is_linebreak_def strip_def isspace_def)

lemma release_world_date_v2: "tag_date release_world (lit ''v2.0.0'') = Inr (lit ''2024-05-06'')"
  by (simp add: tag_date_def release_world_def release_git_def lit_def strip_def isspace_def)

lemma release_world_date_v1: "tag_date release_world (lit ''v1.0.0'') = Inr []"
  by (simp add: tag_date_def release_world_def release_git_def lit_def strip_def)

lemma release_world_later_tags:
  "git_tag_list_sorted_desc release_world_later = Inr [lit ''v2.0.0'', lit ''v1.0.0'']"
  by (simp add: git_tag_list_sorted_desc_def release_world_later_def release_git_def lit_def
      splitlines_def splitlines_from.simps is_linebreak_def strip_def isspace_def
      SEMVER_TAG_RE_match_def digits1_def is_decimal_ascii at_dollar_def)

lemma release_world_later_log_v1:
  "commits_between release_world_later None (lit ''v1.0.0'') = Inr [lit ''init'']"
  by (simp add: commits_between_def release_world_later_def release_git_def lit_def
      splitlines_def splitlines_from.simps is_linebreak_def strip_def isspace_def)

lemma release_world_later_log_v2:
  "commits_between release_world_later (Some (lit ''v1.0.0'')) (lit ''v2.0.0'') =
   Inr [lit ''feature A'', lit ''fix B'']"
  by (simp add: commits_between_def release_world_later_def release_git_def lit_def
      splitlines_def splitlines_from.simps is_linebreak_def strip_def isspace_def)

lemma release_world_later_date_v2:
  "tag_date release_world_later (lit ''v2.0.0'') = Inr (lit ''2024-05-06'')"
  by (simp add: tag_date_def release_world_later_def release_git_def lit_def strip_def
      isspace_def)

lemma release_world_later_date_v1: "tag_date release_world_later (lit ''v1.0.0'') = Inr []"
  by (simp add: tag_date_def release_world_later_def release_git_def lit_def strip_def)

lemma release_world_changelog:
  "build_changelog release_world =
   Inr (lit ''## v2.0.0 '' @ [8212] @ lit '' 2024-05-06'' @ [10] @
        lit ''- feature A'' @ [10] @
        lit ''- fix B'' @ [10] @
        [10] @
        lit ''## v1.0.0 '' @ [8212] @ lit '' 2026-01-09'' @ [10] @
        lit ''- init'' @ [10])"
proof -
  let ?tags = "[lit ''v2.0.0'', lit ''v1.0.0'']"
  let ?M = "\<lambda>i::nat. if i = 0 then [lit ''feature A'', lit ''fix B''] else [lit ''init'']"
  let ?D = "\<lambda>i::nat. if i = 0 then lit ''2024-05-06'' else []"
  have cb: "\<And>i. i < length ?tags \<Longrightarrow>
      commits_between release_world (previous_tag ?tags i) (?tags ! i) = Inr (?M i)"
    by (auto simp add: less_Suc_eq release_world_log_v1 release_world_log_v2)
  have td: "\<And>i. i < length ?tags \<Longrightarrow> tag_date release_world (?tags ! i) = Inr (?D i)"
    by (auto simp add: less_Suc_eq release_world_date_v1 release_world_date_v2)
  have today: "strftime_Ymd (utcnow release_world (Suc 0)) = lit ''2026-01-09''"
    by (simp add: release_world_def clock_jan_today)
  have "build_changelog release_world =
         Inr (join [10, 10]
                (map (\<lambda>i. section_text (?tags ! i) (shown_date release_world i (?D i)) (?M i))
                   [0..<length ?tags]) @
              [10])"
    by (rule build_changelog_Inr [OF release_world_tags _ cb td]) simp_all
  also have "[0..<length ?tags] = [0, Suc 0]" by (rule upt_two)
  finally show ?thesis by (simp add: today lit_def)
qed

lemma release_world_later_changelog:
  "build_changelog release_world_later =
   Inr (lit ''## v2.0.0 '' @ [8212] @ lit '' 2024-05-06'' @ [10] @
        lit ''- feature A'' @ [10] @
        lit ''- fix B'' @ [10] @
        [10] @
        lit ''## v1.0.0 '' @ [8212] @ lit '' 2026-11-03'' @ [10] @
        lit ''- init'' @ [10])"
proof -
  let ?tags = "[lit ''v2.0.0'', lit ''v1.0.0'']"
  let ?M = "\<lambda>i::nat. if i = 0 then [lit ''feature A'', lit ''fix B''] else [lit ''init'']"
  let ?D = "\<lambda>i::nat. if i = 0 then lit ''2024-05-06'' else []"
  have cb: "\<And>i. i < length ?tags \<Longrightarrow>
      commits_between release_world_later (previous_tag ?tags i) (?tags ! i) = Inr (?M i)"
    by (auto simp add: less_Suc_eq release_world_later_log_v1 release_world_later_log_v2)
  have td: "\<And>i. i < length ?tags \<Longrightarrow> tag_date release_world_later (?tags ! i) = Inr (?D i)"
    by (auto simp add: less_Suc_eq release_world_later_date_v1 release_world_later_date_v2)
  have today: "strftime_Ymd (utcnow release_world_later (Suc 0)) = lit ''2026-11-03''"
    by (simp add: release_world_later_def clock_nov_today)
  have "build_changelog release_world_later =
         Inr (join [10, 10]
                (map (\<lambda>i. section_text (?tags ! i) (shown_date release_world_later i (?D i)) (?M i))
                   [0..<length ?tags]) @
              [10])"
    by (rule build_changelog_Inr [OF release_world_later_tags _ cb td]) simp_all
  also have "[0..<length ?tags] = [0, Suc 0]" by (rule upt_two)
  finally show ?thesis by (simp add: today lit_def)
qed

lemma blank_log_world_tags: "git_tag_list_sorted_desc blank_log_world = Inr [lit ''v1.0.0'']"
  by (simp add: git_tag_list_sorted_desc_def blank_log_world_def blank_log_git_def lit_def
      splitlines_def splitlines_from.simps is_linebreak_def strip_def isspace_def
      SEMVER_TAG_RE_match_def digits1_def is_decimal_ascii at_dollar_def)

lemma blank_log_world_date:
  "tag_date blank_log_world (lit ''v1.0.0'') = Inr (lit ''2023-02-01'')"
  by (simp add: tag_date_def blank_log_world_def blank_log_git_def lit_def strip_def
      isspace_def)

lemma blank_log_world_log:
  "run blank_log_world [lit ''git'', lit ''log'', lit ''--no-merges'',
                        lit ''--pretty=format:%s'', lit ''v1.0.0''] =
   Inr (lit ''  '' @ [10] @ [9] @ [10])"
  by (simp add: blank_log_world_def blank_log_git_def lit_def)

lemma blank_log_lines:
  "splitlines (lit ''  '' @ [10] @ [9] @ [10]) = [lit ''  '', [9]]"
  by (simp add: lit_def splitlines_def splitlines_from.simps is_linebreak_def)

lemma blank_lines_strip: "strip (lit ''  '') = []" "strip [9] = []"
  by (simp_all add: lit_def strip_def isspace_def)

section \<open>Equal answers, equal changelog\<close>

lemma sections_loop_cong:
  assumes "list_all (\<lambda>(idx, tag).
             commits_between w1 (previous_tag tags idx) tag =
               commits_between w2 (previous_tag tags idx) tag \<and>
             tag_date w1 tag = tag_date w2 tag \<and>
             (tag_date w1 tag = Inr [] \<longrightarrow>
                strftime_Ymd (utcnow w1 idx) = strftime_Ymd (utcnow w2 idx))) ps"
  shows "sections_loop w1 tags ps acc = sections_loop w2 tags ps acc"
  using assms
proof (induction ps arbitrary: acc)
  case Nil
  then show ?case by simp
next
  case (Cons p ps)
  obtain idx tag where p: "p = (idx, tag)" by (cases p)
  from Cons.prems p have
    cb: "commits_between w1 (previous_tag tags idx) tag =
         commits_between w2 (previous_tag tags idx) tag" and
    td: "tag_date w1 tag = tag_date w2 tag" and
    day: "tag_date w1 tag = Inr [] \<longrightarrow>
          strftime_Ymd (utcnow w1 idx) = strftime_Ymd (utcnow w2 idx)" and
    rest: "list_all (\<lambda>(idx, tag).
             commits_between w1 (previous_tag tags idx) tag =
               commits_between w2 (previous_tag tags idx) tag \<and>
             tag_date w1 tag = tag_date w2 tag \<and>
             (tag_date w1 tag = Inr [] \<longrightarrow>
                strftime_Ymd (utcnow w1 idx) = strftime_Ymd (utcnow w2 idx))) ps"
    by simp_all
  show ?case
  proof (cases "commits_between w2 (previous_tag tags idx) tag")
    case (Inl e)
    with cb show ?thesis unfolding p sections_loop.simps Let_def by simp
  next
    case m: (Inr messages)
    show ?thesis
    proof (cases "tag_date w2 tag")
      case (Inl e)
      with cb td m show ?thesis unfolding p sections_loop.simps Let_def by simp
    next
      case d: (Inr d)
      from day td d have date: "shown_date w1 idx d = shown_date w2 idx d" by simp
      have 1: "sections_loop w1 tags (p # ps) acc =
            sections_loop w1 tags ps (acc @ [section_text tag (shown_date w1 idx d) messages])"
        unfolding p sections_loop.simps Let_def cb td m d by (simp only: sum.case)
      have 2: "sections_loop w2 tags (p # ps) acc =
            sections_loop w2 tags ps (acc @ [section_text tag (shown_date w2 idx d) messages])"
        unfolding p sections_loop.simps Let_def m d by (simp only: sum.case)
      show ?thesis unfolding 1 2 date by (rule Cons.IH [OF rest])
    qed
  qed
qed

section \<open>The lines of a rendered text\<close>

text \<open>
  What \<^verbatim>\<open>str.splitlines\<close> finds in a text that the builder has joined: the lines that
  were joined, as long as none of them holds a line break.
\<close>

lemma is_decimal_not_linebreak: "is_decimal c \<Longrightarrow> \<not> is_linebreak c"
  by (auto simp add: is_decimal_def unicode_Nd_def is_linebreak_def)


lemma splitlines_from_line_newline:
  "list_all (\<lambda>c. \<not> is_linebreak c) a \<Longrightarrow>
   splitlines_from cur (a @ 10 # b) = (rev cur @ a) # splitlines_from [] b"
proof (induction a arbitrary: cur)
  case Nil
  have "splitlines_from cur (10 # b) = rev cur # splitlines_from [] b"
    unfolding splitlines_from.simps(2) [of cur 10 b] by (simp add: is_linebreak_def)
  then show ?case by simp
next
  case (Cons c a)
  then have nb: "\<not> is_linebreak c" and rest: "list_all (\<lambda>c. \<not> is_linebreak c) a" by simp_all
  from nb have c13: "c \<noteq> 13" by (auto simp add: is_linebreak_def)
  have "splitlines_from cur ((c # a) @ 10 # b) = splitlines_from (c # cur) (a @ 10 # b)"
    unfolding append_Cons splitlines_from.simps(2) [of cur c "a @ 10 # b"] using nb c13 by simp
  also have "\<dots> = (rev (c # cur) @ a) # splitlines_from [] b"
    using rest by (rule Cons.IH)
  finally show ?case by simp
qed

lemma decimal_digits: "list_all (\<lambda>c. 48 \<le> c \<and> c \<le> 57) (decimal n)"
proof (induction n rule: decimal.induct)
  case (1 n)
  show ?case
  proof (cases "n < 10")
    case True
    then show ?thesis by (simp add: decimal_lt10)
  next
    case False
    then have "decimal n = decimal (n div 10) @ [48 + n mod 10]" by (simp add: decimal_ge10)
    moreover from False have "list_all (\<lambda>c. 48 \<le> c \<and> c \<le> 57) (decimal (n div 10))"
      by (rule "1.IH")
    moreover have "n mod 10 \<le> 9" by simp
    ultimately show ?thesis by simp
  qed
qed

lemma strftime_Ymd_no_linebreak: "list_all (\<lambda>c. \<not> is_linebreak c) (strftime_Ymd dt)"
proof -
  have d: "list_all (\<lambda>c. \<not> is_linebreak c) (decimal n)" for n
    using decimal_digits [of n] unfolding list_all_iff by (auto simp add: is_linebreak_def)
  have h: "\<not> is_linebreak 45" "\<not> is_linebreak 48" by (simp_all add: is_linebreak_def)
  have z: "list_all (\<lambda>c. \<not> is_linebreak c) (zfill k (decimal n))" for k n
    using d [of n] h(2) by (auto simp add: zfill_def list_all_iff)
  show ?thesis unfolding strftime_Ymd_def using z h(1) by simp
qed

lemma terminated_lines:
  "list_all (list_all (\<lambda>c. \<not> is_linebreak c)) ls \<Longrightarrow>
   splitlines_from [] (concat (map (\<lambda>l. l @ [10]) ls)) = ls"
proof (induction ls)
  case Nil
  then show ?case by (simp add: splitlines_from.simps(1))
next
  case (Cons l ls)
  then have l: "list_all (\<lambda>c. \<not> is_linebreak c) l"
    and rest: "list_all (list_all (\<lambda>c. \<not> is_linebreak c)) ls" by simp_all
  have "splitlines_from [] (concat (map (\<lambda>l. l @ [10]) (l # ls))) =
        splitlines_from [] (l @ 10 # concat (map (\<lambda>l. l @ [10]) ls))" by simp
  also have "\<dots> = (rev [] @ l) # splitlines_from [] (concat (map (\<lambda>l. l @ [10]) ls))"
    using l by (rule splitlines_from_line_newline)
  also have "splitlines_from [] (concat (map (\<lambda>l. l @ [10]) ls)) = ls"
    using rest by (rule Cons.IH)
  finally show ?case by simp
qed


lemma join_newline_terminated:
  "xs \<noteq> [] \<Longrightarrow> join [10] xs @ [10] = concat (map (\<lambda>l. l @ [10]) xs)"
proof (induction xs)
  case Nil
  then show ?case by simp
next
  case (Cons x xs)
  show ?case
  proof (cases "xs = []")
    case True
    then show ?thesis by simp
  next
    case False
    then have "join [10] (x # xs) = x @ [10] @ join [10] xs" by (rule join_Cons)
    moreover from False have "join [10] xs @ [10] = concat (map (\<lambda>l. l @ [10]) xs)"
      by (rule Cons.IH)
    ultimately show ?thesis by simp
  qed
qed


lemma document_lines:
  assumes "Ls \<noteq> []" and "list_all (\<lambda>L. L \<noteq> []) Ls"
    and "list_all (list_all (list_all (\<lambda>c. \<not> is_linebreak c))) Ls"
    and "list_all (list_all P) Ls" and "P []"
  shows "\<exists>ls. join [10, 10] (map (join [10]) Ls) @ [10] = concat (map (\<lambda>l. l @ [10]) ls) \<and>
              list_all (list_all (\<lambda>c. \<not> is_linebreak c)) ls \<and> list_all P ls"
  using assms(1-4)
proof (induction Ls)
  case Nil
  then show ?case by simp
next
  case (Cons L Ls)
  then have L: "L \<noteq> []" "list_all (list_all (\<lambda>c. \<not> is_linebreak c)) L" "list_all P L"
    by simp_all
  have t: "join [10] L @ [10] = concat (map (\<lambda>l. l @ [10]) L)"
    using L(1) by (rule join_newline_terminated)
  show ?case
  proof (cases "Ls = []")
    case True
    then have "join [10, 10] (map (join [10]) (L # Ls)) @ [10] = join [10] L @ [10]" by simp
    with t L(2,3) show ?thesis by (intro exI [of _ L]) simp
  next
    case False
    with Cons.prems have
      "list_all (\<lambda>L. L \<noteq> []) Ls"
      "list_all (list_all (list_all (\<lambda>c. \<not> is_linebreak c))) Ls"
      "list_all (list_all P) Ls" by simp_all
    with False Cons.IH obtain ls where
      ls: "join [10, 10] (map (join [10]) Ls) @ [10] = concat (map (\<lambda>l. l @ [10]) ls)"
          "list_all (list_all (\<lambda>c. \<not> is_linebreak c)) ls" "list_all P ls"
      by blast
    from False have m: "map (join [10]) Ls \<noteq> []" by simp
    have "join [10, 10] (map (join [10]) (L # Ls)) =
          join [10] L @ [10, 10] @ join [10, 10] (map (join [10]) Ls)"
      unfolding list.map using m by (rule join_Cons)
    then have "join [10, 10] (map (join [10]) (L # Ls)) @ [10] =
          (join [10] L @ [10]) @ ([] @ [10]) @ (join [10, 10] (map (join [10]) Ls) @ [10])"
      by simp
    also have "\<dots> = concat (map (\<lambda>l. l @ [10]) (L @ [[]] @ ls))"
      unfolding t ls(1) by simp
    finally have e: "join [10, 10] (map (join [10]) (L # Ls)) @ [10] =
          concat (map (\<lambda>l. l @ [10]) (L @ [[]] @ ls))" .
    have "list_all (list_all (\<lambda>c. \<not> is_linebreak c)) (L @ [[]] @ ls)"
      using L(2) ls(2) by simp
    moreover have "list_all P (L @ [[]] @ ls)" using L(3) ls(3) assms(5) by simp
    ultimately show ?thesis using e by (intro exI [of _ "L @ [[]] @ ls"]) simp
  qed
qed

lemma document_splitlines:
  assumes "Ls \<noteq> []" and "list_all (\<lambda>L. L \<noteq> []) Ls"
    and "list_all (list_all (list_all (\<lambda>c. \<not> is_linebreak c))) Ls"
    and "list_all (list_all P) Ls" and "P []"
  shows "list_all P (splitlines (join [10, 10] (map (join [10]) Ls) @ [10]))"
proof -
  from document_lines [OF assms] obtain ls where
    ls: "join [10, 10] (map (join [10]) Ls) @ [10] = concat (map (\<lambda>l. l @ [10]) ls)"
        "list_all (list_all (\<lambda>c. \<not> is_linebreak c)) ls" "list_all P ls"
    by blast
  have "splitlines_from [] (concat (map (\<lambda>l. l @ [10]) ls)) = ls"
    using ls(2) by (rule terminated_lines)
  with ls(3) show ?thesis unfolding splitlines_def ls(1) by simp
qed

lemma git_tags_exact:
  assumes "git_tag_list_sorted_desc w = Inr tags"
  shows "list_all (\<lambda>t. \<exists>a b c. a \<noteq> [] \<and> list_all is_decimal a \<and>
                               b \<noteq> [] \<and> list_all is_decimal b \<and>
                               c \<noteq> [] \<and> list_all is_decimal c \<and>
                               t = [118] @ a @ [46] @ b @ [46] @ c) tags"
proof -
  from assms obtain stdout where
    tags: "tags = filter SEMVER_TAG_RE_match
                    (map strip (filter (\<lambda>t. strip t \<noteq> []) (splitlines stdout)))"
    by (auto simp add: git_tag_list_sorted_desc_def Let_def split: sum.splits)
  have "\<exists>a b c. a \<noteq> [] \<and> list_all is_decimal a \<and> b \<noteq> [] \<and> list_all is_decimal b \<and>
                c \<noteq> [] \<and> list_all is_decimal c \<and> t = [118] @ a @ [46] @ b @ [46] @ c"
    if "t \<in> set tags" for t
  proof -
    from that tags obtain x where x: "t = strip x" and "SEMVER_TAG_RE_match t" by auto
    then have "SEMVER_TAG_RE_match (strip x)" by simp
    from stripped_semver_exact [OF this] x show ?thesis by simp
  qed
  then show ?thesis unfolding list_all_iff by blast
qed

lemma digits_no_linebreak:
  "list_all is_decimal a \<Longrightarrow> list_all (\<lambda>c. \<not> is_linebreak c) a"
  by (induction a) (simp_all add: is_decimal_not_linebreak)

lemma git_tags_no_linebreak:
  assumes "git_tag_list_sorted_desc w = Inr tags"
  shows "list_all (list_all (\<lambda>c. \<not> is_linebreak c)) tags"
proof -
  have "list_all (\<lambda>c. \<not> is_linebreak c) t" if "t \<in> set tags" for t
  proof -
    from git_tags_exact [OF assms] that obtain a b c where
      d: "list_all is_decimal a" "list_all is_decimal b" "list_all is_decimal c"
      and t: "t = [118] @ a @ [46] @ b @ [46] @ c"
      unfolding list_all_iff by blast
    have s: "\<not> is_linebreak 118" "\<not> is_linebreak 46" by (simp_all add: is_linebreak_def)
    from d have "list_all (\<lambda>c. \<not> is_linebreak c) a" "list_all (\<lambda>c. \<not> is_linebreak c) b"
      "list_all (\<lambda>c. \<not> is_linebreak c) c" by (simp_all add: digits_no_linebreak)
    with s show ?thesis unfolding t by simp
  qed
  then show ?thesis unfolding list_all_iff by blast
qed

lemma section_lines_no_linebreak:
  assumes "list_all (\<lambda>c. \<not> is_linebreak c) tag" "list_all (\<lambda>c. \<not> is_linebreak c) date"
    and "list_all (list_all (\<lambda>c. \<not> is_linebreak c)) ms"
  shows "list_all (list_all (\<lambda>c. \<not> is_linebreak c))
           ((lit ''## '' @ tag @ [32, 8212, 32] @ date) # map (\<lambda>m. lit ''- '' @ m) ms)"
proof -
  have s: "\<not> is_linebreak 35" "\<not> is_linebreak 32" "\<not> is_linebreak 8212" "\<not> is_linebreak 45"
    by (simp_all add: is_linebreak_def)
  have h: "list_all (\<lambda>c. \<not> is_linebreak c) (lit ''## '' @ tag @ [32, 8212, 32] @ date)"
    using assms(1,2) s by (simp add: lit_def)
  have b: "list_all (list_all (\<lambda>c. \<not> is_linebreak c)) (map (\<lambda>m. lit ''- '' @ m) ms)"
    using assms(3) s by (induction ms) (simp_all add: lit_def)
  from h b show ?thesis by simp
qed


lemma changelog_header_lines:
  assumes tags: "git_tag_list_sorted_desc w = Inr tags" and ne: "tags \<noteq> []"
    and calls: "\<forall>i<length tags.
                  commits_between w (previous_tag tags i) (tags ! i) = Inr (M i) \<and>
                  tag_date w (tags ! i) = Inr (D i)"
    and dates: "\<forall>i<length tags. list_all (\<lambda>c. \<not> is_linebreak c) (D i)"
  shows "\<forall>ln \<in> set (splitlines
                      (join [10, 10]
                         (map (\<lambda>i. section_text (tags ! i) (shown_date w i (D i)) (M i))
                            [0..<length tags]) @ [10])).
           (\<exists>rest. ln = lit ''## '' @ rest) \<longrightarrow>
           (\<exists>i<length tags. ln = lit ''## '' @ tags ! i @ [32, 8212, 32] @ shown_date w i (D i))"
proof -
  define H where "H = (\<lambda>i. lit ''## '' @ tags ! i @ [32, 8212, 32] @ shown_date w i (D i))"
  define L where "L = (\<lambda>i. H i # map (\<lambda>m. lit ''- '' @ m) (M i))"
  define P where "P = (\<lambda>ln. (\<exists>rest. ln = lit ''## '' @ rest) \<longrightarrow> (\<exists>i<length tags. ln = H i))"
  have eqL: "join [10, 10]
               (map (\<lambda>i. section_text (tags ! i) (shown_date w i (D i)) (M i))
                  [0..<length tags]) @ [10] =
             join [10, 10] (map (join [10]) (map L [0..<length tags])) @ [10]"
    unfolding L_def H_def by (simp add: o_def)
  have n: "map L [0..<length tags] \<noteq> []" using ne by simp
  have nonempty: "list_all (\<lambda>L. L \<noteq> []) (map L [0..<length tags])"
    by (simp add: list_all_iff L_def)
  have P0: "P []" by (simp add: P_def lit_def)
  have per: "list_all (list_all (\<lambda>c. \<not> is_linebreak c)) (L i) \<and> list_all P (L i)"
    if i: "i < length tags" for i
  proof -
    from calls i have cb: "commits_between w (previous_tag tags i) (tags ! i) = Inr (M i)"
      by simp
    from git_tags_no_linebreak [OF tags] i have
      t: "list_all (\<lambda>c. \<not> is_linebreak c) (tags ! i)"
      unfolding list_all_length by blast
    from dates i have "list_all (\<lambda>c. \<not> is_linebreak c) (D i)" by blast
    then have d: "list_all (\<lambda>c. \<not> is_linebreak c) (shown_date w i (D i))"
      using strftime_Ymd_no_linebreak [of "utcnow w i"] by simp
    from commits_between_messages [OF cb] have
      m: "list_all (list_all (\<lambda>c. \<not> is_linebreak c)) (M i)"
      unfolding list_all_iff by blast
    have nb: "list_all (list_all (\<lambda>c. \<not> is_linebreak c)) (L i)"
      unfolding L_def H_def using t d m by (rule section_lines_no_linebreak)
    have PH: "P (H i)" unfolding P_def using i by blast
    have Pb: "list_all P (map (\<lambda>m. lit ''- '' @ m) (M i))"
      unfolding list_all_iff P_def by (auto simp add: lit_def)
    from PH Pb have "list_all P (L i)" unfolding L_def by simp
    with nb show ?thesis by simp
  qed
  have nbs: "list_all (list_all (list_all (\<lambda>c. \<not> is_linebreak c))) (map L [0..<length tags])"
    using per by (simp add: list_all_iff)
  have Ps: "list_all (list_all P) (map L [0..<length tags])"
    using per by (simp add: list_all_iff)
  from document_splitlines [OF n nonempty nbs Ps P0]
  have "\<forall>ln \<in> set (splitlines (join [10, 10] (map (join [10]) (map L [0..<length tags])) @ [10])).
          P ln"
    unfolding list_all_iff .
  then show ?thesis unfolding eqL [symmetric] P_def H_def .
qed


section \<open>The branched repository, evaluated\<close>









section \<open>The answer of the operator\<close>


section \<open>Claims about the changelog and the version check\<close>

text \<open>
  C1. With a non-empty tag list, and git answering every query of the loop,
  \<^verbatim>\<open>build_changelog\<close> returns one section per tag in the order of the list; the section at
  position \<open>i\<close> holds the messages of \<^verbatim>\<open>commits_between\<close> from the tag at position \<open>i + 1\<close>
  (none for the last position) to the tag at position \<open>i\<close>. With a previous tag \<open>a\<close> the
  revision range given to \<^verbatim>\<open>git log --no-merges\<close> is \<^verbatim>\<open>a..b\<close>, which excludes \<open>a\<close> and
  includes \<open>b\<close>; without one it is \<open>b\<close> alone, the whole history up to \<open>b\<close>.
\<close>

theorem build_changelog_intervals:
  assumes tags: "git_tag_list_sorted_desc w = Inr tags" and ne: "tags \<noteq> []"
    and cb: "\<forall>i<length tags. commits_between w (previous_tag tags i) (tags ! i) = Inr (M i)"
    and td: "\<forall>i<length tags. tag_date w (tags ! i) = Inr (D i)"
  shows "build_changelog w =
           Inr (join [10, 10]
                  (map (\<lambda>i. section_text (tags ! i) (shown_date w i (D i)) (M i))
                     [0..<length tags]) @
                [10]) \<and>
         commits_between w None b =
           (case run w [lit ''git'', lit ''log'', lit ''--no-merges'',
                        lit ''--pretty=format:%s'', b] of
              Inl e \<Rightarrow> Inl e
            | Inr stdout \<Rightarrow> Inr (map strip (filter (\<lambda>ln. strip ln \<noteq> []) (splitlines stdout)))) \<and>
         commits_between w (Some a) b =
           (case run w [lit ''git'', lit ''log'', lit ''--no-merges'',
                        lit ''--pretty=format:%s'', a @ lit ''..'' @ b] of
              Inl e \<Rightarrow> Inl e
            | Inr stdout \<Rightarrow> Inr (map strip (filter (\<lambda>ln. strip ln \<noteq> []) (splitlines stdout))))"
proof (intro conjI)
  show "build_changelog w =
           Inr (join [10, 10]
                  (map (\<lambda>i. section_text (tags ! i) (shown_date w i (D i)) (M i))
                     [0..<length tags]) @
                [10])"
    using cb td by (intro build_changelog_Inr [OF tags ne]) simp_all
next
  show "commits_between w None b =
           (case run w [lit ''git'', lit ''log'', lit ''--no-merges'',
                        lit ''--pretty=format:%s'', b] of
              Inl e \<Rightarrow> Inl e
            | Inr stdout \<Rightarrow> Inr (map strip (filter (\<lambda>ln. strip ln \<noteq> []) (splitlines stdout))))"
    by (simp add: commits_between_def lit_def)
next
  show "commits_between w (Some a) b =
           (case run w [lit ''git'', lit ''log'', lit ''--no-merges'',
                        lit ''--pretty=format:%s'', a @ lit ''..'' @ b] of
              Inl e \<Rightarrow> Inl e
            | Inr stdout \<Rightarrow> Inr (map strip (filter (\<lambda>ln. strip ln \<noteq> []) (splitlines stdout))))"
    by (simp add: commits_between_def lit_def)
qed

theorem build_changelog_intervals_witness:
  "build_changelog release_world =
     Inr (join [10, 10]
            [section_text (lit ''v2.0.0'') (lit ''2024-05-06'') [lit ''feature A'', lit ''fix B''],
             section_text (lit ''v1.0.0'') (lit ''2026-01-09'') [lit ''init'']] @
          [10]) \<and>
   commits_between release_world None (lit ''v1.0.0'') = Inr [lit ''init''] \<and>
   commits_between release_world (Some (lit ''v1.0.0'')) (lit ''v2.0.0'') =
     Inr [lit ''feature A'', lit ''fix B'']"
proof -
  let ?tags = "[lit ''v2.0.0'', lit ''v1.0.0'']"
  let ?M = "\<lambda>i::nat. if i = 0 then [lit ''feature A'', lit ''fix B''] else [lit ''init'']"
  let ?D = "\<lambda>i::nat. if i = 0 then lit ''2024-05-06'' else []"
  have cb: "\<forall>i<length ?tags.
      commits_between release_world (previous_tag ?tags i) (?tags ! i) = Inr (?M i)"
    unfolding all_less_two by (simp add: release_world_log_v1 release_world_log_v2)
  have td: "\<forall>i<length ?tags. tag_date release_world (?tags ! i) = Inr (?D i)"
    unfolding all_less_two by (simp add: release_world_date_v1 release_world_date_v2)
  have today: "strftime_Ymd (utcnow release_world (Suc 0)) = lit ''2026-01-09''"
    by (simp add: release_world_def clock_jan_today)
  from build_changelog_intervals [OF release_world_tags _ cb td, of "lit ''v1.0.0''" "lit ''v1.0.0''"]
  have "build_changelog release_world =
      Inr (join [10, 10]
             (map (\<lambda>i. section_text (?tags ! i) (shown_date release_world i (?D i)) (?M i))
                [0..<length ?tags]) @
           [10])"
    by simp
  then have "build_changelog release_world =
     Inr (join [10, 10]
            [section_text (lit ''v2.0.0'') (lit ''2024-05-06'') [lit ''feature A'', lit ''fix B''],
             section_text (lit ''v1.0.0'') (lit ''2026-01-09'') [lit ''init'']] @
          [10])"
    unfolding upt_two by (simp add: today lit_def)
  then show ?thesis by (simp add: release_world_log_v1 release_world_log_v2)
qed

text \<open>
  C2. With a non-empty tag list, every text that \<^verbatim>\<open>build_changelog\<close> returns is the
  sections joined by one blank line and followed by one newline. A section is the header
  \<^verbatim>\<open>## <tag>\<close>, a dash (U+2014) between spaces and the date, then one line \<^verbatim>\<open>- <message>\<close> per
  message of its interval, in the order git gave them. No message is empty or contains a
  line break, every section starts with \<^verbatim>\<open>#\<close> and none ends with a newline, so exactly one
  blank line separates two sections and the text ends with exactly one newline.
\<close>

theorem build_changelog_format:
  assumes tags: "git_tag_list_sorted_desc w = Inr tags" and ne: "tags \<noteq> []"
    and out: "build_changelog w = Inr out"
  shows "\<exists>dates msgs.
           out = join [10, 10]
                   (map (\<lambda>i. join [10] ((lit ''## '' @ tags ! i @ [32, 8212, 32] @ dates i) #
                                         map (\<lambda>m. lit ''- '' @ m) (msgs i)))
                      [0..<length tags]) @ [10] \<and>
           (\<forall>i<length tags.
              commits_between w (previous_tag tags i) (tags ! i) = Inr (msgs i) \<and>
              list_all (\<lambda>m. m \<noteq> [] \<and> list_all (\<lambda>c. \<not> is_linebreak c) m) (msgs i) \<and>
              hd (section_text (tags ! i) (dates i) (msgs i)) = 35 \<and>
              last (section_text (tags ! i) (dates i) (msgs i)) \<noteq> 10) \<and>
           (\<exists>body. out = body @ [10] \<and> body \<noteq> [] \<and> last body \<noteq> 10)"
proof -
  from build_changelog_InrD [OF out tags ne] obtain M D where
    calls: "\<forall>i<length tags. commits_between w (previous_tag tags i) (tags ! i) = Inr (M i) \<and>
                             tag_date w (tags ! i) = Inr (D i)"
    by blast
  let ?dates = "\<lambda>i. shown_date w i (D i)"
  let ?sec = "\<lambda>i. section_text (tags ! i) (?dates i) (M i)"
  let ?secs = "map ?sec [0..<length tags]"
  have "build_changelog w = Inr (join [10, 10] ?secs @ [10])"
    using calls by (intro build_changelog_Inr [OF tags ne]) simp_all
  with out have eq: "out = join [10, 10] ?secs @ [10]" by simp
  have facts: "hd (?sec i) = 35 \<and> ?sec i \<noteq> [] \<and> last (?sec i) \<noteq> 10 \<and>
               list_all (\<lambda>m. m \<noteq> [] \<and> list_all (\<lambda>c. \<not> is_linebreak c) m) (M i)"
    if "i < length tags" for i
  proof -
    from calls that have "commits_between w (previous_tag tags i) (tags ! i) = Inr (M i)"
      "tag_date w (tags ! i) = Inr (D i)" by simp_all
    then show ?thesis by (rule section_facts)
  qed
  have per: "\<forall>i<length tags.
              commits_between w (previous_tag tags i) (tags ! i) = Inr (M i) \<and>
              list_all (\<lambda>m. m \<noteq> [] \<and> list_all (\<lambda>c. \<not> is_linebreak c) m) (M i) \<and>
              hd (?sec i) = 35 \<and> last (?sec i) \<noteq> 10"
    using calls facts by simp
  from ne have n: "0 < length tags" by simp
  then have secs_ne: "?secs \<noteq> []" by simp
  have "last ?secs = ?sec (length tags - 1)" using n by (simp add: last_conv_nth)
  moreover from facts [of "length tags - 1"] n have
    "?sec (length tags - 1) \<noteq> []" "last (?sec (length tags - 1)) \<noteq> 10" by simp_all
  ultimately have "last ?secs \<noteq> []" "last (last ?secs) \<noteq> 10" by simp_all
  with secs_ne have "join [10, 10] ?secs \<noteq> [] \<and> last (join [10, 10] ?secs) \<noteq> 10"
    by (rule document_end)
  with eq have body: "\<exists>body. out = body @ [10] \<and> body \<noteq> [] \<and> last body \<noteq> 10" by blast
  from eq per body show ?thesis by (intro exI [of _ ?dates] exI [of _ M] conjI)
qed

theorem build_changelog_format_witness:
  "\<exists>body. build_changelog release_world = Inr (body @ [10]) \<and> body \<noteq> [] \<and> last body \<noteq> 10"
proof -
  from build_changelog_format [OF release_world_tags _ release_world_changelog]
  obtain body where
    "lit ''## v2.0.0 '' @ [8212] @ lit '' 2024-05-06'' @ [10] @
        lit ''- feature A'' @ [10] @
        lit ''- fix B'' @ [10] @
        [10] @
        lit ''## v1.0.0 '' @ [8212] @ lit '' 2026-01-09'' @ [10] @
        lit ''- init'' @ [10] = body @ [10]" "body \<noteq> []" "last body \<noteq> 10"
    by blast
  with release_world_changelog show ?thesis by (intro exI [of _ body]) simp
qed

text \<open>
  C3. For the tags \<^verbatim>\<open>v2.0.0\<close>, \<^verbatim>\<open>v1.0.0\<close>, the messages \<^verbatim>\<open>init\<close> up to \<^verbatim>\<open>v1.0.0\<close> and
  \<^verbatim>\<open>feature A\<close>, \<^verbatim>\<open>fix B\<close> from \<^verbatim>\<open>v1.0.0\<close> to \<^verbatim>\<open>v2.0.0\<close>, the changelog is the two sections
  of the specification's example, with the dates shown for the two tags and a final
  newline.
\<close>

theorem build_changelog_two_releases:
  assumes tags: "git_tag_list_sorted_desc w = Inr [lit ''v2.0.0'', lit ''v1.0.0'']"
    and m1: "commits_between w None (lit ''v1.0.0'') = Inr [lit ''init'']"
    and m2: "commits_between w (Some (lit ''v1.0.0'')) (lit ''v2.0.0'') =
             Inr [lit ''feature A'', lit ''fix B'']"
    and d2: "tag_date w (lit ''v2.0.0'') = Inr date2"
    and d1: "tag_date w (lit ''v1.0.0'') = Inr date1"
  shows "build_changelog w =
         Inr (lit ''## v2.0.0 '' @ [8212] @ lit '' '' @ shown_date w 0 date2 @ [10] @
              lit ''- feature A'' @ [10] @
              lit ''- fix B'' @ [10] @
              [10] @
              lit ''## v1.0.0 '' @ [8212] @ lit '' '' @ shown_date w 1 date1 @ [10] @
              lit ''- init'' @ [10])"
proof -
  let ?tags = "[lit ''v2.0.0'', lit ''v1.0.0'']"
  let ?M = "\<lambda>i::nat. if i = 0 then [lit ''feature A'', lit ''fix B''] else [lit ''init'']"
  let ?D = "\<lambda>i::nat. if i = 0 then date2 else date1"
  have cb: "\<And>i. i < length ?tags \<Longrightarrow>
      commits_between w (previous_tag ?tags i) (?tags ! i) = Inr (?M i)"
    using m1 m2 by (auto simp add: less_Suc_eq)
  have td: "\<And>i. i < length ?tags \<Longrightarrow> tag_date w (?tags ! i) = Inr (?D i)"
    using d1 d2 by (auto simp add: less_Suc_eq)
  have "build_changelog w =
         Inr (join [10, 10]
                (map (\<lambda>i. section_text (?tags ! i) (shown_date w i (?D i)) (?M i)) [0..<length ?tags]) @
              [10])"
    by (rule build_changelog_Inr [OF tags _ cb td]) simp_all
  also have "[0..<length ?tags] = [0, Suc 0]" by (rule upt_two)
  finally show ?thesis by (simp add: lit_def)
qed

theorem build_changelog_two_releases_witness:
  "build_changelog release_world =
   Inr (lit ''## v2.0.0 '' @ [8212] @ lit '' 2024-05-06'' @ [10] @
        lit ''- feature A'' @ [10] @
        lit ''- fix B'' @ [10] @
        [10] @
        lit ''## v1.0.0 '' @ [8212] @ lit '' 2026-01-09'' @ [10] @
        lit ''- init'' @ [10])"
  using build_changelog_two_releases [OF release_world_tags release_world_log_v1
      release_world_log_v2 release_world_date_v2 release_world_date_v1]
  by (simp add: clock_jan_today release_world_def lit_def)

text \<open>
  C4. When git lists no tag that matches the pattern, \<^verbatim>\<open>build_changelog\<close> returns
  normally, and what it returns is exactly the one-line text \<^verbatim>\<open>No tags found.\<close> followed by a
  newline.
\<close>

theorem build_changelog_no_tags:
  "git_tag_list_sorted_desc w = Inr [] \<Longrightarrow>
   build_changelog w = Inr (lit ''No tags found.'' @ [10])"
  by (simp add: build_changelog_def)

theorem build_changelog_no_tags_witness:
  "git_tag_list_sorted_desc no_tags_world = Inr [] \<and>
   build_changelog no_tags_world = Inr (lit ''No tags found.'' @ [10])"
proof -
  have h: "git_tag_list_sorted_desc no_tags_world = Inr []"
    by (simp add: git_tag_list_sorted_desc_def no_tags_world_def silent_git_def
        splitlines_def splitlines_from.simps)
  show ?thesis using h build_changelog_no_tags [OF h] by simp
qed

text \<open>
  C5, as stated: two runs in which git gives the same answers return the same text,
  whenever they run. This fails: for a tag without a date the text shows the date of the
  clock, so the same repository read on two different days gives two different texts.
\<close>

theorem build_changelog_depends_on_clock:
  "run release_world = run release_world_later \<and>
   build_changelog release_world \<noteq> build_changelog release_world_later"
proof
  show "run release_world = run release_world_later"
    by (simp add: release_world_def release_world_later_def)
next
  show "build_changelog release_world \<noteq> build_changelog release_world_later"
    unfolding release_world_changelog release_world_later_changelog by (simp add: lit_def)
qed

text \<open>
  C5, amended: two runs return the same result when git gives the same tag list, the
  same date for every tag and the same messages for every interval, and when, for every
  tag without a date, the clock shows the same UTC date in both runs. The clocks may
  differ anywhere else.
\<close>

theorem build_changelog_deterministic:
  assumes same_tags: "git_tag_list_sorted_desc w1 = git_tag_list_sorted_desc w2"
    and same_dates: "\<forall>tag. tag_date w1 tag = tag_date w2 tag"
    and same_msgs: "\<forall>a b. commits_between w1 a b = commits_between w2 a b"
    and same_day: "\<forall>tags i. git_tag_list_sorted_desc w1 = Inr tags \<and> i < length tags \<and>
                     tag_date w1 (tags ! i) = Inr [] \<longrightarrow>
                     strftime_Ymd (utcnow w1 i) = strftime_Ymd (utcnow w2 i)"
  shows "build_changelog w1 = build_changelog w2"
proof (cases "git_tag_list_sorted_desc w1")
  case (Inl e)
  with same_tags have "git_tag_list_sorted_desc w2 = Inl e" by simp
  with Inl show ?thesis by (simp add: build_changelog_def)
next
  case (Inr tags)
  with same_tags have tags2: "git_tag_list_sorted_desc w2 = Inr tags" by simp
  have "list_all (\<lambda>(idx, tag).
             commits_between w1 (previous_tag tags idx) tag =
               commits_between w2 (previous_tag tags idx) tag \<and>
             tag_date w1 tag = tag_date w2 tag \<and>
             (tag_date w1 tag = Inr [] \<longrightarrow>
                strftime_Ymd (utcnow w1 idx) = strftime_Ymd (utcnow w2 idx))) (enumerate 0 tags)"
    unfolding list_all_enumerate using same_dates same_msgs same_day Inr by simp
  then have "sections_loop w1 tags (enumerate 0 tags) [] =
             sections_loop w2 tags (enumerate 0 tags) []"
    by (rule sections_loop_cong)
  with Inr tags2 show ?thesis by (simp add: build_changelog_def)
qed

theorem build_changelog_deterministic_witness:
  "build_changelog release_world = build_changelog release_world_mixed \<and>
   utcnow release_world 0 \<noteq> utcnow release_world_mixed 0"
proof
  have same_tags: "git_tag_list_sorted_desc release_world =
                   git_tag_list_sorted_desc release_world_mixed"
    by (simp add: git_tag_list_sorted_desc_def release_world_def release_world_mixed_def)
  have same_dates: "\<forall>tag. tag_date release_world tag = tag_date release_world_mixed tag"
    by (simp add: tag_date_def release_world_def release_world_mixed_def)
  have same_msgs: "\<forall>a b. commits_between release_world a b =
                          commits_between release_world_mixed a b"
    by (simp add: commits_between_def release_world_def release_world_mixed_def)
  have same_day: "\<forall>tags i. git_tag_list_sorted_desc release_world = Inr tags \<and>
                     i < length tags \<and> tag_date release_world (tags ! i) = Inr [] \<longrightarrow>
                     strftime_Ymd (utcnow release_world i) =
                     strftime_Ymd (utcnow release_world_mixed i)"
  proof (intro allI impI, elim conjE)
    fix tags i
    assume t: "git_tag_list_sorted_desc release_world = Inr tags" and i: "i < length tags"
      and absent: "tag_date release_world (tags ! i) = Inr []"
    from t release_world_tags have tags: "tags = [lit ''v2.0.0'', lit ''v1.0.0'']" by simp
    have "i \<noteq> 0"
    proof
      assume "i = 0"
      with absent tags have "tag_date release_world (lit ''v2.0.0'') = Inr []" by simp
      with release_world_date_v2 show False by (simp add: lit_def)
    qed
    then show "strftime_Ymd (utcnow release_world i) =
               strftime_Ymd (utcnow release_world_mixed i)"
      by (simp add: release_world_def release_world_mixed_def clock_jan_def clock_mixed_def)
  qed
  from build_changelog_deterministic [OF same_tags same_dates same_msgs same_day]
  show "build_changelog release_world = build_changelog release_world_mixed" .
next
  show "utcnow release_world 0 \<noteq> utcnow release_world_mixed 0"
    by (simp add: release_world_def release_world_mixed_def clock_jan_def clock_mixed_def)
qed

text \<open>
  C6. When git prints no date for the tag at position \<open>i\<close>, and every query of the loop
  is answered, \<^verbatim>\<open>build_changelog\<close> returns normally and the header of section \<open>i\<close> shows
  the UTC date of the clock read in that iteration, as four digits of the year, two of
  the month and two of the day, separated by hyphens. The year is taken to have four
  digits (1000 to 9999).
\<close>

theorem build_changelog_missing_date:
  assumes tags: "git_tag_list_sorted_desc w = Inr tags" and ne: "tags \<noteq> []"
    and cb: "\<forall>j<length tags. commits_between w (previous_tag tags j) (tags ! j) = Inr (M j)"
    and td: "\<forall>j<length tags. tag_date w (tags ! j) = Inr (D j)"
    and i: "i < length tags" and absent: "tag_date w (tags ! i) = Inr []"
    and y: "1000 \<le> year (utcnow w i)" "year (utcnow w i) \<le> 9999"
    and mo: "1 \<le> month (utcnow w i)" "month (utcnow w i) \<le> 12"
    and dy: "1 \<le> day (utcnow w i)" "day (utcnow w i) \<le> 31"
  shows "\<exists>secs. build_changelog w = Inr (join [10, 10] secs @ [10]) \<and>
           length secs = length tags \<and>
           secs ! i = section_text (tags ! i) (strftime_Ymd (utcnow w i)) (M i) \<and>
           strftime_Ymd (utcnow w i) =
             [48 + year (utcnow w i) div 1000, 48 + year (utcnow w i) div 100 mod 10,
              48 + year (utcnow w i) div 10 mod 10, 48 + year (utcnow w i) mod 10, 45,
              48 + month (utcnow w i) div 10, 48 + month (utcnow w i) mod 10, 45,
              48 + day (utcnow w i) div 10, 48 + day (utcnow w i) mod 10]"
proof -
  let ?secs = "map (\<lambda>j. section_text (tags ! j) (shown_date w j (D j)) (M j)) [0..<length tags]"
  have out: "build_changelog w = Inr (join [10, 10] ?secs @ [10])"
    using cb td by (intro build_changelog_Inr [OF tags ne]) simp_all
  from td i absent have "D i = []" by simp
  with i have sec: "?secs ! i = section_text (tags ! i) (strftime_Ymd (utcnow w i)) (M i)"
    by simp
  have fmt: "strftime_Ymd (utcnow w i) =
             [48 + year (utcnow w i) div 1000, 48 + year (utcnow w i) div 100 mod 10,
              48 + year (utcnow w i) div 10 mod 10, 48 + year (utcnow w i) mod 10, 45,
              48 + month (utcnow w i) div 10, 48 + month (utcnow w i) mod 10, 45,
              48 + day (utcnow w i) div 10, 48 + day (utcnow w i) mod 10]"
    using y mo dy by (intro strftime_Ymd_digits) simp_all
  have len: "length ?secs = length tags" by simp
  from out len sec fmt show ?thesis by (intro exI [of _ ?secs] conjI)
qed

theorem build_changelog_missing_date_witness:
  "\<exists>secs. build_changelog release_world = Inr (join [10, 10] secs @ [10]) \<and>
     length secs = 2 \<and>
     secs ! 1 = section_text (lit ''v1.0.0'') (lit ''2026-01-09'') [lit ''init'']"
proof -
  let ?tags = "[lit ''v2.0.0'', lit ''v1.0.0'']"
  let ?M = "\<lambda>i::nat. if i = 0 then [lit ''feature A'', lit ''fix B''] else [lit ''init'']"
  let ?D = "\<lambda>i::nat. if i = 0 then lit ''2024-05-06'' else []"
  have cb: "\<forall>i<length ?tags.
      commits_between release_world (previous_tag ?tags i) (?tags ! i) = Inr (?M i)"
    unfolding all_less_two by (simp add: release_world_log_v1 release_world_log_v2)
  have td: "\<forall>i<length ?tags. tag_date release_world (?tags ! i) = Inr (?D i)"
    unfolding all_less_two by (simp add: release_world_date_v1 release_world_date_v2)
  have clock: "utcnow release_world 1 = \<lparr>year = 2026, month = 1, day = 9\<rparr>"
    by (simp add: release_world_def clock_jan_def)
  have today: "strftime_Ymd (utcnow release_world 1) = lit ''2026-01-09''"
    by (simp add: release_world_def clock_jan_today)
  from build_changelog_missing_date [OF release_world_tags _ cb td, of 1]
  obtain secs where "build_changelog release_world = Inr (join [10, 10] secs @ [10])"
    "length secs = length ?tags"
    "secs ! 1 = section_text (?tags ! 1) (strftime_Ymd (utcnow release_world 1)) (?M 1)"
    unfolding clock by (auto simp add: release_world_date_v1)
  then show ?thesis unfolding today by (intro exI [of _ secs]) simp
qed

text \<open>
  C7. Whatever \<^verbatim>\<open>git tag\<close> prints, the tags that \<^verbatim>\<open>build_changelog\<close> works on are exactly
  those of its stripped, non-blank lines that match the pattern, and each of these tags is
  \<^verbatim>\<open>v\<close>, digits, a dot, digits, a dot and digits, with nothing before or after. Without such
  a line the returned text is the placeholder; otherwise it is one section per such tag,
  in order, made of the messages and the date that git gives for that tag. When the dates
  that git prints hold no line break, every line of the text that starts with \<^verbatim>\<open>## \<close> is
  the header of one of these tags: a tag that does not match the pattern is the header of
  no section.
\<close>

theorem build_changelog_only_semver_tags:
  assumes raw: "run w [lit ''git'', lit ''tag'', lit ''--sort=-creatordate''] = Inr stdout"
    and out: "build_changelog w = Inr out"
  shows "\<exists>tags. git_tag_list_sorted_desc w = Inr tags \<and>
           tags = filter SEMVER_TAG_RE_match
                    (map strip (filter (\<lambda>t. strip t \<noteq> []) (splitlines stdout))) \<and>
           list_all (\<lambda>t. \<exists>a b c. a \<noteq> [] \<and> list_all is_decimal a \<and>
                                   b \<noteq> [] \<and> list_all is_decimal b \<and>
                                   c \<noteq> [] \<and> list_all is_decimal c \<and>
                                   t = [118] @ a @ [46] @ b @ [46] @ c) tags \<and>
           (if tags = [] then out = lit ''No tags found.'' @ [10]
            else \<exists>M D.
                   (\<forall>i<length tags.
                      commits_between w (previous_tag tags i) (tags ! i) = Inr (M i) \<and>
                      tag_date w (tags ! i) = Inr (D i)) \<and>
                   out = join [10, 10]
                           (map (\<lambda>i. section_text (tags ! i) (shown_date w i (D i)) (M i))
                              [0..<length tags]) @ [10] \<and>
                   ((\<forall>i<length tags. list_all (\<lambda>c. \<not> is_linebreak c) (D i)) \<longrightarrow>
                    (\<forall>ln \<in> set (splitlines out).
                       (\<exists>rest. ln = lit ''## '' @ rest) \<longrightarrow>
                       (\<exists>i<length tags.
                          ln = lit ''## '' @ tags ! i @ [32, 8212, 32] @ shown_date w i (D i)))))"
proof -
  obtain tags where tags_eq: "tags = filter SEMVER_TAG_RE_match
                    (map strip (filter (\<lambda>t. strip t \<noteq> []) (splitlines stdout)))"
    by simp
  have tags: "git_tag_list_sorted_desc w = Inr tags"
    unfolding tags_eq by (simp add: git_tag_list_sorted_desc_def raw)
  have all: "list_all (\<lambda>t. \<exists>a b c. a \<noteq> [] \<and> list_all is_decimal a \<and>
                                   b \<noteq> [] \<and> list_all is_decimal b \<and>
                                   c \<noteq> [] \<and> list_all is_decimal c \<and>
                                   t = [118] @ a @ [46] @ b @ [46] @ c) tags"
    using tags by (rule git_tags_exact)
  have doc: "if tags = [] then out = lit ''No tags found.'' @ [10]
            else \<exists>M D.
                   (\<forall>i<length tags.
                      commits_between w (previous_tag tags i) (tags ! i) = Inr (M i) \<and>
                      tag_date w (tags ! i) = Inr (D i)) \<and>
                   out = join [10, 10]
                           (map (\<lambda>i. section_text (tags ! i) (shown_date w i (D i)) (M i))
                              [0..<length tags]) @ [10] \<and>
                   ((\<forall>i<length tags. list_all (\<lambda>c. \<not> is_linebreak c) (D i)) \<longrightarrow>
                    (\<forall>ln \<in> set (splitlines out).
                       (\<exists>rest. ln = lit ''## '' @ rest) \<longrightarrow>
                       (\<exists>i<length tags.
                          ln = lit ''## '' @ tags ! i @ [32, 8212, 32] @ shown_date w i (D i))))"
  proof (cases "tags = []")
    case True
    with tags have "build_changelog w = Inr (lit ''No tags found.'' @ [10])"
      by (simp add: build_changelog_def)
    with out True show ?thesis by simp
  next
    case False
    from build_changelog_InrD [OF out tags False] obtain M D where
      calls: "\<forall>i<length tags.
                commits_between w (previous_tag tags i) (tags ! i) = Inr (M i) \<and>
                tag_date w (tags ! i) = Inr (D i)"
      by blast
    have "build_changelog w =
            Inr (join [10, 10]
                   (map (\<lambda>i. section_text (tags ! i) (shown_date w i (D i)) (M i))
                      [0..<length tags]) @ [10])"
      using calls by (intro build_changelog_Inr [OF tags False]) simp_all
    with out have eq: "out = join [10, 10]
                   (map (\<lambda>i. section_text (tags ! i) (shown_date w i (D i)) (M i))
                      [0..<length tags]) @ [10]" by simp
    have lines: "(\<forall>i<length tags. list_all (\<lambda>c. \<not> is_linebreak c) (D i)) \<longrightarrow>
                    (\<forall>ln \<in> set (splitlines out).
                       (\<exists>rest. ln = lit ''## '' @ rest) \<longrightarrow>
                       (\<exists>i<length tags.
                          ln = lit ''## '' @ tags ! i @ [32, 8212, 32] @ shown_date w i (D i)))"
      unfolding eq using changelog_header_lines [OF tags False calls] by (rule impI)
    from calls eq lines have "\<exists>M D.
                   (\<forall>i<length tags.
                      commits_between w (previous_tag tags i) (tags ! i) = Inr (M i) \<and>
                      tag_date w (tags ! i) = Inr (D i)) \<and>
                   out = join [10, 10]
                           (map (\<lambda>i. section_text (tags ! i) (shown_date w i (D i)) (M i))
                              [0..<length tags]) @ [10] \<and>
                   ((\<forall>i<length tags. list_all (\<lambda>c. \<not> is_linebreak c) (D i)) \<longrightarrow>
                    (\<forall>ln \<in> set (splitlines out).
                       (\<exists>rest. ln = lit ''## '' @ rest) \<longrightarrow>
                       (\<exists>i<length tags.
                          ln = lit ''## '' @ tags ! i @ [32, 8212, 32] @ shown_date w i (D i))))"
      by (intro exI [of _ M] exI [of _ D] conjI)
    with False show ?thesis by simp
  qed
  from tags tags_eq all doc show ?thesis by (intro exI [of _ tags] conjI)
qed

theorem build_changelog_only_semver_tags_witness:
  "git_tag_list_sorted_desc release_world = Inr [lit ''v2.0.0'', lit ''v1.0.0''] \<and>
   build_changelog release_world =
     Inr (lit ''## v2.0.0 '' @ [8212] @ lit '' 2024-05-06'' @ [10] @
          lit ''- feature A'' @ [10] @
          lit ''- fix B'' @ [10] @
          [10] @
          lit ''## v1.0.0 '' @ [8212] @ lit '' 2026-01-09'' @ [10] @
          lit ''- init'' @ [10]) \<and>
   list_all (\<lambda>ln. (\<exists>rest. ln = lit ''## '' @ rest) \<longrightarrow>
                   ln = lit ''## v2.0.0'' @ [32, 8212, 32] @ lit ''2024-05-06'' \<or>
                   ln = lit ''## v1.0.0'' @ [32, 8212, 32] @ lit ''2026-01-09'')
     (splitlines
        (lit ''## v2.0.0 '' @ [8212] @ lit '' 2024-05-06'' @ [10] @
         lit ''- feature A'' @ [10] @
         lit ''- fix B'' @ [10] @
         [10] @
         lit ''## v1.0.0 '' @ [8212] @ lit '' 2026-01-09'' @ [10] @
         lit ''- init'' @ [10]))"
proof -
  let ?out = "lit ''## v2.0.0 '' @ [8212] @ lit '' 2024-05-06'' @ [10] @
         lit ''- feature A'' @ [10] @
         lit ''- fix B'' @ [10] @
         [10] @
         lit ''## v1.0.0 '' @ [8212] @ lit '' 2026-01-09'' @ [10] @
         lit ''- init'' @ [10]"
  let ?tags = "[lit ''v2.0.0'', lit ''v1.0.0'']"
  have raw: "run release_world [lit ''git'', lit ''tag'', lit ''--sort=-creatordate''] =
      Inr (lit ''v2.0.0'' @ [10] @ lit ''nightly'' @ [10] @ lit ''v1.0.0'' @ [10])"
    by (simp add: release_world_def release_git_def)
  from build_changelog_only_semver_tags [OF raw release_world_changelog]
  obtain tags where t: "git_tag_list_sorted_desc release_world = Inr tags"
    and doc: "if tags = [] then ?out = lit ''No tags found.'' @ [10]
            else \<exists>M D.
                   (\<forall>i<length tags.
                      commits_between release_world (previous_tag tags i) (tags ! i) = Inr (M i) \<and>
                      tag_date release_world (tags ! i) = Inr (D i)) \<and>
                   ?out = join [10, 10]
                           (map (\<lambda>i. section_text (tags ! i) (shown_date release_world i (D i)) (M i))
                              [0..<length tags]) @ [10] \<and>
                   ((\<forall>i<length tags. list_all (\<lambda>c. \<not> is_linebreak c) (D i)) \<longrightarrow>
                    (\<forall>ln \<in> set (splitlines ?out).
                       (\<exists>rest. ln = lit ''## '' @ rest) \<longrightarrow>
                       (\<exists>i<length tags.
                          ln = lit ''## '' @ tags ! i @ [32, 8212, 32] @
                               shown_date release_world i (D i))))"
    by blast
  from t release_world_tags have tags: "tags = ?tags" by simp
  then have "tags \<noteq> []" by simp
  with doc obtain M D where
    calls: "\<forall>i<length tags. commits_between release_world (previous_tag tags i) (tags ! i) = Inr (M i) \<and>
                      tag_date release_world (tags ! i) = Inr (D i)"
    and lines: "(\<forall>i<length tags. list_all (\<lambda>c. \<not> is_linebreak c) (D i)) \<longrightarrow>
                    (\<forall>ln \<in> set (splitlines ?out).
                       (\<exists>rest. ln = lit ''## '' @ rest) \<longrightarrow>
                       (\<exists>i<length tags.
                          ln = lit ''## '' @ tags ! i @ [32, 8212, 32] @
                               shown_date release_world i (D i)))"
    by auto
  from calls [unfolded tags all_less_two]
  have "tag_date release_world (lit ''v2.0.0'') = Inr (D 0)"
    "tag_date release_world (lit ''v1.0.0'') = Inr (D (Suc 0))" by simp_all
  then have D: "D 0 = lit ''2024-05-06''" "D (Suc 0) = []"
    unfolding release_world_date_v2 release_world_date_v1 by simp_all
  have nb: "list_all (\<lambda>c. \<not> is_linebreak c) (lit ''2024-05-06'')"
    by (simp add: lit_def is_linebreak_def)
  have dates: "\<forall>i<length tags. list_all (\<lambda>c. \<not> is_linebreak c) (D i)"
    unfolding tags all_less_two using D nb by simp
  have today: "strftime_Ymd (utcnow release_world (Suc 0)) = lit ''2026-01-09''"
    by (simp add: release_world_def clock_jan_today)
  have ne: "lit ''2024-05-06'' \<noteq> []" by (simp add: lit_def)
  have headers: "ln = lit ''## v2.0.0'' @ [32, 8212, 32] @ lit ''2024-05-06'' \<or>
                 ln = lit ''## v1.0.0'' @ [32, 8212, 32] @ lit ''2026-01-09''"
    if ln: "ln \<in> set (splitlines ?out)" and h: "\<exists>rest. ln = lit ''## '' @ rest" for ln
  proof -
    from lines dates ln h obtain i where i: "i < length tags"
      and e: "ln = lit ''## '' @ tags ! i @ [32, 8212, 32] @ shown_date release_world i (D i)"
      by blast
    from i have "i = 0 \<or> i = Suc 0" unfolding tags by auto
    then show ?thesis
    proof
      assume "i = 0"
      with e D(1) ne show ?thesis unfolding tags by (simp add: lit_def)
    next
      assume "i = Suc 0"
      with e D(2) today show ?thesis unfolding tags by (simp add: lit_def)
    qed
  qed
  then have all: "list_all (\<lambda>ln. (\<exists>rest. ln = lit ''## '' @ rest) \<longrightarrow>
                   ln = lit ''## v2.0.0'' @ [32, 8212, 32] @ lit ''2024-05-06'' \<or>
                   ln = lit ''## v1.0.0'' @ [32, 8212, 32] @ lit ''2026-01-09'')
     (splitlines ?out)"
    unfolding list_all_iff by blast
  from release_world_tags release_world_changelog all show ?thesis by (intro conjI)
qed




text \<open>
  C9. Of the lines that \<^verbatim>\<open>git log\<close> prints for an interval, those that are empty or
  only whitespace are dropped and the others are stripped: the bullets of a section are
  exactly these stripped lines, none of them empty, and a section for which every line
  is blank is its header alone.
\<close>

theorem build_changelog_blank_messages_dropped:
  assumes tags: "git_tag_list_sorted_desc w = Inr tags" and ne: "tags \<noteq> []"
    and logs: "\<forall>i<length tags.
                 run w [lit ''git'', lit ''log'', lit ''--no-merges'', lit ''--pretty=format:%s'',
                        (case previous_tag tags i of
                           None \<Rightarrow> tags ! i | Some a \<Rightarrow> a @ lit ''..'' @ tags ! i)] = Inr (L i)"
    and td: "\<forall>i<length tags. tag_date w (tags ! i) = Inr (D i)"
  shows "build_changelog w =
           Inr (join [10, 10]
                  (map (\<lambda>i. section_text (tags ! i) (shown_date w i (D i))
                               (map strip (filter (\<lambda>ln. strip ln \<noteq> []) (splitlines (L i)))))
                     [0..<length tags]) @ [10]) \<and>
         (\<forall>i<length tags.
            list_all (\<lambda>m. m \<noteq> [] \<and> strip m = m)
              (map strip (filter (\<lambda>ln. strip ln \<noteq> []) (splitlines (L i)))) \<and>
            (list_all (\<lambda>ln. strip ln = []) (splitlines (L i)) \<longrightarrow>
               section_text (tags ! i) (shown_date w i (D i))
                 (map strip (filter (\<lambda>ln. strip ln \<noteq> []) (splitlines (L i)))) =
               lit ''## '' @ tags ! i @ [32, 8212, 32] @ shown_date w i (D i)))"
proof -
  let ?M = "\<lambda>i. map strip (filter (\<lambda>ln. strip ln \<noteq> []) (splitlines (L i)))"
  have cb: "commits_between w (previous_tag tags i) (tags ! i) = Inr (?M i)"
    if "i < length tags" for i
  proof -
    from logs that have
      "run w [lit ''git'', lit ''log'', lit ''--no-merges'', lit ''--pretty=format:%s'',
              (case previous_tag tags i of
                 None \<Rightarrow> tags ! i | Some a \<Rightarrow> a @ lit ''..'' @ tags ! i)] = Inr (L i)"
      by simp
    then show ?thesis by (simp add: commits_between_def Let_def lit_def)
  qed
  have out: "build_changelog w =
           Inr (join [10, 10]
                  (map (\<lambda>i. section_text (tags ! i) (shown_date w i (D i)) (?M i))
                     [0..<length tags]) @ [10])"
    using cb td by (intro build_changelog_Inr [OF tags ne]) simp_all
  have kept: "list_all (\<lambda>m. m \<noteq> [] \<and> strip m = m) (?M i)" for i
    by (simp add: list_all_iff strip_idem)
  have none: "list_all (\<lambda>ln. strip ln = []) (splitlines (L i)) \<longrightarrow>
               section_text (tags ! i) (shown_date w i (D i)) (?M i) =
               lit ''## '' @ tags ! i @ [32, 8212, 32] @ shown_date w i (D i)" for i
  proof
    assume "list_all (\<lambda>ln. strip ln = []) (splitlines (L i))"
    then have "filter (\<lambda>ln. strip ln \<noteq> []) (splitlines (L i)) = []"
      by (simp add: list_all_iff filter_empty_conv)
    then show "section_text (tags ! i) (shown_date w i (D i)) (?M i) =
               lit ''## '' @ tags ! i @ [32, 8212, 32] @ shown_date w i (D i)" by simp
  qed
  from out kept none show ?thesis by simp
qed

theorem build_changelog_blank_messages_dropped_witness:
  "build_changelog blank_log_world =
     Inr (lit ''## v1.0.0 '' @ [8212] @ lit '' 2023-02-01'' @ [10])"
proof -
  let ?tags = "[lit ''v1.0.0'']"
  have logs: "\<forall>i<length ?tags.
      run blank_log_world [lit ''git'', lit ''log'', lit ''--no-merges'',
          lit ''--pretty=format:%s'',
          (case previous_tag ?tags i of
             None \<Rightarrow> ?tags ! i | Some a \<Rightarrow> a @ lit ''..'' @ ?tags ! i)] =
      Inr ((\<lambda>i. lit ''  '' @ [10] @ [9] @ [10]) i)"
    by (simp add: blank_log_world_log)
  have td: "\<forall>i<length ?tags. tag_date blank_log_world (?tags ! i) =
      Inr ((\<lambda>i. lit ''2023-02-01'') i)"
    by (simp add: blank_log_world_date)
  from build_changelog_blank_messages_dropped [OF blank_log_world_tags _ logs td]
  have "build_changelog blank_log_world =
      Inr (join [10, 10]
             (map (\<lambda>i. section_text (?tags ! i)
                          (shown_date blank_log_world i (lit ''2023-02-01''))
                          (map strip (filter (\<lambda>ln. strip ln \<noteq> [])
                             (splitlines (lit ''  '' @ [10] @ [9] @ [10])))))
                [0..<length ?tags]) @ [10])"
    by simp
  then show ?thesis
    unfolding blank_log_lines by (simp add: blank_lines_strip) (simp add: lit_def)
qed




end
